theory Spec2Isabelle
  imports Main
begin

section \<open>The PCV deposit aggregator (PCVDepositAggregator.sol)\<close>

text \<open>
  A shallow embedding of the contract \<^verbatim>\<open>PCVDepositAggregator\<close>. A transaction either
  returns the updated state or reverts; a revert is the value \<open>Inl e\<close> and leaves no
  state behind, which is the all-or-nothing semantics of the EVM. Unsigned 256-bit
  integers are natural numbers with the checks of Solidity 0.8 written out; signed
  256-bit integers are integers with the checks of \<^verbatim>\<open>SafeCast\<close> written out.
\<close>

subsection \<open>Errors and checked arithmetic\<close>

type_synonym address = nat

datatype error =
    LengthMismatch
  | NullRewardsAssetManager
  | DuplicateDeposit
  | UnknownDeposit
  | NoRebalanceNeeded
  | InsufficientAggregatorLiquidity
  | InsufficientTotalBalance
  | Unauthorized
  | Paused
  | ArithmeticPanic
  | DivisionByZero
  | SafeCastOverflow
  | TransferExceedsBalance
  | DepositWithdrawFailed

text \<open>
  The reverts of the contract and of its collaborators:
  \<^item> \<open>LengthMismatch\<close>: "Addresses and weights are not the same length!" (also arrays
    of different lengths in \<^verbatim>\<open>UintArrayOps\<close>);
  \<^item> \<open>NullRewardsAssetManager\<close>: "Rewards asset manager cannot be null";
  \<^item> \<open>DuplicateDeposit\<close>: "Deposit already added.";
  \<^item> \<open>UnknownDeposit\<close>: "Deposit does not exist.";
  \<^item> \<open>NoRebalanceNeeded\<close>: "No rebalance needed.";
  \<^item> \<open>InsufficientAggregatorLiquidity\<close>: "Cannot rebalance this deposit, please
    rebalance another one first.";
  \<^item> \<open>InsufficientTotalBalance\<close>: "Not enough balance to withdraw";
  \<^item> \<open>Unauthorized\<close> and \<open>Paused\<close>: the modifiers \<^verbatim>\<open>onlyGovernorOrAdmin\<close>,
    \<^verbatim>\<open>onlyPCVController\<close> and \<^verbatim>\<open>whenNotPaused\<close>;
  \<^item> \<open>ArithmeticPanic\<close> and \<open>DivisionByZero\<close>: the panics of checked arithmetic;
  \<^item> \<open>SafeCastOverflow\<close>: a value that does not fit the target type of \<^verbatim>\<open>SafeCast\<close>;
  \<^item> \<open>TransferExceedsBalance\<close>: the token refuses a transfer of more than the sender
    holds;
  \<^item> \<open>DepositWithdrawFailed\<close>: a deposit is asked for more than it holds.
\<close>

text \<open>Sequencing of two steps, the first of which may revert.\<close>

definition andThen :: "error + 'a \<Rightarrow> ('a \<Rightarrow> error + 'b) \<Rightarrow> error + 'b" where
  "andThen r f = (case r of Inl e \<Rightarrow> Inl e | Inr x \<Rightarrow> f x)"

text \<open>\<^verbatim>\<open>uint256\<close> arithmetic of Solidity 0.8: overflow, underflow and division by zero panic.\<close>

definition checked_add :: "nat \<Rightarrow> nat \<Rightarrow> error + nat" where
  "checked_add a b = (if a + b < 2 ^ 256 then Inr (a + b) else Inl ArithmeticPanic)"

definition checked_sub :: "nat \<Rightarrow> nat \<Rightarrow> error + nat" where
  "checked_sub a b = (if b \<le> a then Inr (a - b) else Inl ArithmeticPanic)"

definition checked_mul :: "nat \<Rightarrow> nat \<Rightarrow> error + nat" where
  "checked_mul a b = (if a * b < 2 ^ 256 then Inr (a * b) else Inl ArithmeticPanic)"

definition checked_div :: "nat \<Rightarrow> nat \<Rightarrow> error + nat" where
  "checked_div a b = (if b = 0 then Inl DivisionByZero else Inr (a div b))"

text \<open>\<^verbatim>\<open>a * b / c\<close> as the contract writes it: the product first, then the quotient.\<close>

definition mulDiv :: "nat \<Rightarrow> nat \<Rightarrow> nat \<Rightarrow> error + nat" where
  "mulDiv a b c = andThen (checked_mul a b) (\<lambda>p. checked_div p c)"

text \<open>\<^verbatim>\<open>SafeCast.toInt256\<close> and \<^verbatim>\<open>SafeCast.toUint256\<close>, and \<^verbatim>\<open>int256\<close> arithmetic.\<close>

definition toInt256 :: "nat \<Rightarrow> error + int" where
  "toInt256 a = (if a < 2 ^ 255 then Inr (int a) else Inl SafeCastOverflow)"

definition toUint256 :: "int \<Rightarrow> error + nat" where
  "toUint256 i = (if 0 \<le> i then Inr (nat i) else Inl SafeCastOverflow)"

definition int256 :: "int \<Rightarrow> error + int" where
  "int256 r = (if - (2 ^ 255) \<le> r \<and> r < 2 ^ 255 then Inr r else Inl ArithmeticPanic)"

definition int256_add :: "int \<Rightarrow> int \<Rightarrow> error + int" where
  "int256_add a b = int256 (a + b)"

definition int256_sub :: "int \<Rightarrow> int \<Rightarrow> error + int" where
  "int256_sub a b = int256 (a - b)"

definition int256_mul :: "int \<Rightarrow> int \<Rightarrow> error + int" where
  "int256_mul a b = int256 (a * b)"

text \<open>A loop whose body may revert, run over an array from the first index to the last.\<close>

fun traverse :: "('a \<Rightarrow> error + 'b) \<Rightarrow> 'a list \<Rightarrow> error + 'b list" where
  "traverse f [] = Inr []"
| "traverse f (x # xs) =
     andThen (f x) (\<lambda>y. andThen (traverse f xs) (\<lambda>ys. Inr (y # ys)))"

subsection \<open>Library code used by the contract\<close>

text \<open>
  Modelled from the spec: \<^verbatim>\<open>UintArrayOps.sum\<close> (\<^verbatim>\<open>libs/UintArrayOps.sol\<close> is not among
  the sources): the sum of the array, accumulated from the first element in checked
  \<^verbatim>\<open>uint256\<close> arithmetic.
\<close>

fun sum_from :: "nat \<Rightarrow> nat list \<Rightarrow> error + nat" where
  "sum_from acc [] = Inr acc"
| "sum_from acc (x # xs) = andThen (checked_add acc x) (\<lambda>acc'. sum_from acc' xs)"

definition array_sum :: "nat list \<Rightarrow> error + nat" where
  "array_sum xs = sum_from 0 xs"

text \<open>
  Modelled from the spec: \<^verbatim>\<open>UintArrayOps.positiveDifference\<close> (not among the sources):
  \<open>max(0, a[i] - b[i])\<close> for every index; arrays of different lengths revert.
\<close>

definition positiveDifference :: "nat list \<Rightarrow> nat list \<Rightarrow> error + nat list" where
  "positiveDifference a b =
     (if length a = length b then Inr (map (\<lambda>(x, y). if x > y then x - y else 0) (zip a b))
      else Inl LengthMismatch)"

text \<open>
  Modelled from the spec: \<^verbatim>\<open>Decimal.ratio\<close>, \<^verbatim>\<open>Decimal.mul\<close> and \<^verbatim>\<open>Decimal.asUint256\<close>
  (\<^verbatim>\<open>external/Decimal.sol\<close> is not among the sources). The spec gives the composite
  \<open>amountToSend = surplus * amountNeeded / totalAmountNeeded\<close>; the scalar is kept as
  the pair of numerator and denominator.
\<close>

definition Decimal_ratio :: "nat \<Rightarrow> nat \<Rightarrow> error + nat \<times> nat" where
  "Decimal_ratio a b = (if b = 0 then Inl DivisionByZero else Inr (a, b))"

definition Decimal_mul_asUint256 :: "nat \<times> nat \<Rightarrow> nat \<Rightarrow> error + nat" where
  "Decimal_mul_asUint256 scalar x = mulDiv (fst scalar) x (snd scalar)"

text \<open>
  OpenZeppelin's \<^verbatim>\<open>EnumerableSet.AddressSet\<close>: an array of distinct values. \<^verbatim>\<open>add\<close>
  appends a value that is not yet present; \<^verbatim>\<open>remove\<close> moves the last value into the
  slot of the removed one and shrinks the array by one; \<^verbatim>\<open>at(i)\<close> reads slot \<open>i\<close>.
\<close>

definition EnumerableSet_contains :: "address list \<Rightarrow> address \<Rightarrow> bool" where
  "EnumerableSet_contains xs a = (a \<in> set xs)"

definition EnumerableSet_add :: "address list \<Rightarrow> address \<Rightarrow> address list" where
  "EnumerableSet_add xs a = (if a \<in> set xs then xs else xs @ [a])"

fun EnumerableSet_remove :: "address list \<Rightarrow> address \<Rightarrow> address list" where
  "EnumerableSet_remove [] a = []"
| "EnumerableSet_remove (x # xs) a =
     (if x = a then (if xs = [] then [] else last xs # butlast xs)
      else x # EnumerableSet_remove xs a)"

subsection \<open>State\<close>

text \<open>
  The storage of the aggregator, the ledger of the ERC-20 \<^verbatim>\<open>token\<close> (the balance of
  every address, the aggregator's own at \<open>thisAddress\<close>), and a log of the external
  calls made so far. \<^verbatim>\<open>CoreRef\<close> is not among the sources: of its state the model
  keeps the pause flag that \<^verbatim>\<open>whenNotPaused\<close> reads, and the outcome of its role
  checks for the caller is a parameter \<open>authorized\<close> of every guarded function.
\<close>

datatype call =
    SubWithdraw address nat
  | TokenTransfer address nat
  | SubDeposit address

record state =
  pcvDepositAddresses :: "address list"
  pcvDepositWeights :: "address \<Rightarrow> nat"
  bufferWeight :: nat
  totalWeight :: nat
  rewardsAssetManager :: address
  token :: address
  thisAddress :: address
  paused :: bool
  tokenBalances :: "address \<Rightarrow> nat"
  calls :: "call list"

text \<open>
  The ledger after \<open>amount\<close> tokens have moved from one holder to another: the
  sender is debited first, then the recipient is credited. The total supply of the
  token fits a \<^verbatim>\<open>uint256\<close>, so the credit does not overflow.
\<close>

definition moved :: "(address \<Rightarrow> nat) \<Rightarrow> address \<Rightarrow> address \<Rightarrow> nat \<Rightarrow> address \<Rightarrow> nat" where
  "moved b from to amount = (let b1 = b(from := b from - amount) in b1(to := b1 to + amount))"

text \<open>
  \<^verbatim>\<open>IERC20(token).safeTransfer(to, amount)\<close> sent by the aggregator; the token reverts
  when the sender holds less than \<open>amount\<close>.
\<close>

definition safeTransfer :: "state \<Rightarrow> address \<Rightarrow> nat \<Rightarrow> error + state" where
  "safeTransfer s to amount =
     (if tokenBalances s (thisAddress s) < amount then Inl TransferExceedsBalance
      else Inr (s\<lparr>tokenBalances := moved (tokenBalances s) (thisAddress s) to amount,
                  calls := calls s @ [TokenTransfer to amount]\<rparr>))"

text \<open>
  Modelled from the spec: the external PCV deposit (\<^verbatim>\<open>IPCVDeposit\<close>, implemented by
  contracts that are not among the sources). \<^verbatim>\<open>balance()\<close> reads the amount the deposit
  holds, \<^verbatim>\<open>withdraw(to, amount)\<close> transfers \<open>amount\<close> out to \<open>to\<close> and fails when the
  deposit holds less, \<^verbatim>\<open>deposit()\<close> takes tokens already transferred to the deposit into
  its accounting. This describes a deposit that is a contract other than the
  aggregator: were the aggregator registered as a deposit of its own, these calls
  would run its own \<^verbatim>\<open>withdraw\<close> and \<^verbatim>\<open>deposit\<close> instead, so the properties of the
  calls below are stated for deposits different from \<open>thisAddress\<close>.
\<close>

definition IPCVDeposit_balance :: "state \<Rightarrow> address \<Rightarrow> nat" where
  "IPCVDeposit_balance s d = tokenBalances s d"

definition IPCVDeposit_withdraw :: "state \<Rightarrow> address \<Rightarrow> address \<Rightarrow> nat \<Rightarrow> error + state" where
  "IPCVDeposit_withdraw s d to amount =
     (if tokenBalances s d < amount then Inl DepositWithdrawFailed
      else Inr (s\<lparr>tokenBalances := moved (tokenBalances s) d to amount,
                  calls := calls s @ [SubWithdraw d amount]\<rparr>))"

definition IPCVDeposit_deposit :: "state \<Rightarrow> address \<Rightarrow> state" where
  "IPCVDeposit_deposit s d = s\<lparr>calls := calls s @ [SubDeposit d]\<rparr>"

subsection \<open>View functions\<close>

definition balance :: "state \<Rightarrow> nat" where
  "balance s = tokenBalances s (thisAddress s)"

definition getUnderlyingBalances :: "state \<Rightarrow> nat list" where
  "getUnderlyingBalances s = map (IPCVDeposit_balance s) (pcvDepositAddresses s)"

definition getUnderlyingBalancesAndSum :: "state \<Rightarrow> error + nat \<times> nat \<times> nat list" where
  "getUnderlyingBalancesAndSum s =
     (let underlyingBalances = getUnderlyingBalances s in
      andThen (array_sum underlyingBalances) (\<lambda>depositSum.
      Inr (balance s, depositSum, underlyingBalances)))"

definition getTotalBalance :: "state \<Rightarrow> error + nat" where
  "getTotalBalance s =
     andThen (array_sum (getUnderlyingBalances s)) (\<lambda>underlyingSum.
     checked_add underlyingSum (balance s))"

definition amountFromTarget :: "state \<Rightarrow> address \<Rightarrow> error + int" where
  "amountFromTarget s pcvDeposit =
     andThen (getTotalBalance s) (\<lambda>totalBalance.
     let pcvDepositBalance = IPCVDeposit_balance s pcvDeposit;
         pcvDepositWeight = pcvDepositWeights s pcvDeposit in
     andThen (mulDiv pcvDepositWeight totalBalance (totalWeight s)) (\<lambda>idealDepositBalance.
     andThen (toInt256 pcvDepositBalance) (\<lambda>a.
     andThen (toInt256 idealDepositBalance) (\<lambda>b.
     int256_sub a b))))"

definition getAllAmountsFromTargets :: "state \<Rightarrow> error + int list" where
  "getAllAmountsFromTargets s =
     andThen (getUnderlyingBalancesAndSum s) (\<lambda>(aggregatorBalance, underlyingSum, underlyingBalances).
     andThen (checked_add aggregatorBalance underlyingSum) (\<lambda>totalBalance.
     traverse (\<lambda>(depositAddress, underlyingBalance).
         andThen (mulDiv totalBalance (pcvDepositWeights s depositAddress) (totalWeight s)) (\<lambda>idealAmount.
         andThen (toInt256 idealAmount) (\<lambda>a.
         andThen (toInt256 underlyingBalance) (\<lambda>b.
         int256_sub a b))))
       (zip (pcvDepositAddresses s) underlyingBalances)))"

definition getOptimalUnderlyingBalances :: "state \<Rightarrow> nat \<Rightarrow> error + nat list" where
  "getOptimalUnderlyingBalances s totalBalance =
     traverse (\<lambda>depositAddress.
         mulDiv (pcvDepositWeights s depositAddress) totalBalance (totalWeight s))
       (pcvDepositAddresses s)"


subsection \<open>Rebalancing\<close>

definition depositToUnderlying :: "state \<Rightarrow> address \<Rightarrow> nat \<Rightarrow> error + state" where
  "depositToUnderlying s to amount =
     andThen (safeTransfer s to amount) (\<lambda>s1. Inr (IPCVDeposit_deposit s1 to))"

text \<open>
  \<^verbatim>\<open>_rebalanceSingle\<close>. The conjunction in the liquidity check evaluates its second
  operand only when the first is true.
\<close>

definition internal_rebalanceSingle :: "state \<Rightarrow> address \<Rightarrow> error + state" where
  "internal_rebalanceSingle s pcvDeposit =
     (if \<not> EnumerableSet_contains (pcvDepositAddresses s) pcvDeposit then Inl UnknownDeposit
      else
        andThen (amountFromTarget s pcvDeposit) (\<lambda>distanceToTarget.
        if \<not> distanceToTarget \<noteq> 0 then Inl NoRebalanceNeeded
        else
          andThen (if distanceToTarget < 0
                   then andThen (int256_mul (- 1) distanceToTarget) (\<lambda>m.
                        andThen (toUint256 m) (\<lambda>n. Inr (balance s < n)))
                   else Inr False) (\<lambda>insufficient.
          if insufficient then Inl InsufficientAggregatorLiquidity
          else if distanceToTarget > 0 then
            andThen (toUint256 distanceToTarget) (\<lambda>n.
            IPCVDeposit_withdraw s pcvDeposit (thisAddress s) n)
          else
            andThen (int256_mul (- 1) distanceToTarget) (\<lambda>m.
            andThen (toUint256 m) (\<lambda>n.
            andThen (safeTransfer s pcvDeposit n) (\<lambda>s1.
            Inr (IPCVDeposit_deposit s1 pcvDeposit)))))))"

definition rebalanceSingle :: "state \<Rightarrow> address \<Rightarrow> error + state" where
  "rebalanceSingle s pcvDeposit =
     (if paused s then Inl Paused else internal_rebalanceSingle s pcvDeposit)"

text \<open>
  The two loops of \<^verbatim>\<open>_rebalance\<close>, each over the registry slots paired with the
  distances computed before the first loop. The calls made inside the loops do not
  write the registry, so slot \<open>i\<close> holds the same address throughout.
\<close>

fun rebalance_withdraws :: "state \<Rightarrow> (address \<times> int) list \<Rightarrow> error + state" where
  "rebalance_withdraws s [] = Inr s"
| "rebalance_withdraws s ((depositAddress, distance) # rest) =
     (if distance < 0 then
        andThen (int256_mul (- 1) distance) (\<lambda>m.
        andThen (toUint256 m) (\<lambda>n.
        andThen (IPCVDeposit_withdraw s depositAddress (thisAddress s) n) (\<lambda>s1.
        rebalance_withdraws s1 rest)))
      else rebalance_withdraws s rest)"

fun rebalance_deposits :: "state \<Rightarrow> (address \<times> int) list \<Rightarrow> error + state" where
  "rebalance_deposits s [] = Inr s"
| "rebalance_deposits s ((depositAddress, distance) # rest) =
     (if distance > 0 then
        andThen (toUint256 distance) (\<lambda>n.
        andThen (safeTransfer s depositAddress n) (\<lambda>s1.
        rebalance_deposits (IPCVDeposit_deposit s1 depositAddress) rest))
      else rebalance_deposits s rest)"

definition internal_rebalance :: "state \<Rightarrow> error + state" where
  "internal_rebalance s =
     andThen (getUnderlyingBalancesAndSum s) (\<lambda>(aggregatorBalance, totalUnderlyingBalance, _).
     andThen (checked_add totalUnderlyingBalance aggregatorBalance) (\<lambda>totalBalance.
     andThen (getAllAmountsFromTargets s) (\<lambda>distancesToTargets.
     andThen (rebalance_withdraws s (zip (pcvDepositAddresses s) distancesToTargets)) (\<lambda>s1.
     rebalance_deposits s1 (zip (pcvDepositAddresses s1) distancesToTargets)))))"

definition rebalance :: "state \<Rightarrow> error + state" where
  "rebalance s = (if paused s then Inl Paused else internal_rebalance s)"

subsection \<open>Deposit and withdraw\<close>

fun deposit_loop :: "state \<Rightarrow> nat \<times> nat \<Rightarrow> (address \<times> nat) list \<Rightarrow> error + state" where
  "deposit_loop s scalar [] = Inr s"
| "deposit_loop s scalar ((depositAddress, amountNeeded) # rest) =
     andThen (Decimal_mul_asUint256 scalar amountNeeded) (\<lambda>amountToSend.
     if amountToSend > 0 then
       andThen (depositToUnderlying s depositAddress amountToSend) (\<lambda>s1.
       deposit_loop s1 scalar rest)
     else deposit_loop s scalar rest)"

definition deposit :: "state \<Rightarrow> error + state" where
  "deposit s =
     (if paused s then Inl Paused
      else
        andThen (getUnderlyingBalancesAndSum s) (\<lambda>(actualAggregatorBalance, underlyingSum, underlyingBalances).
        andThen (checked_add underlyingSum actualAggregatorBalance) (\<lambda>totalBalance.
        andThen (mulDiv (bufferWeight s) totalBalance (totalWeight s)) (\<lambda>optimalAggregatorBalance.
        if actualAggregatorBalance \<le> optimalAggregatorBalance then Inr s
        else
          andThen (checked_sub optimalAggregatorBalance actualAggregatorBalance) (\<lambda>amountAvailableForUnderlyingDeposits.
          andThen (getOptimalUnderlyingBalances s totalBalance) (\<lambda>optimalUnderlyingBalances.
          andThen (positiveDifference optimalUnderlyingBalances underlyingBalances) (\<lambda>amountsNeeded.
          andThen (array_sum amountsNeeded) (\<lambda>totalAmountNeeded.
          andThen (Decimal_ratio amountAvailableForUnderlyingDeposits totalAmountNeeded) (\<lambda>scalar.
          deposit_loop s scalar (zip (pcvDepositAddresses s) amountsNeeded))))))))))"

fun withdraw_loop :: "state \<Rightarrow> (address \<times> nat \<times> nat) list \<Rightarrow> error + state" where
  "withdraw_loop s [] = Inr s"
| "withdraw_loop s ((pcvDepositAddress, actualPcvDepositBalance, idealPcvDepositBalance) # rest) =
     (if actualPcvDepositBalance > idealPcvDepositBalance then
        andThen (checked_sub actualPcvDepositBalance idealPcvDepositBalance) (\<lambda>amountToWithdraw.
        andThen (IPCVDeposit_withdraw s pcvDepositAddress (thisAddress s) amountToWithdraw) (\<lambda>s1.
        withdraw_loop s1 rest))
      else withdraw_loop s rest)"

text \<open>
  \<^verbatim>\<open>withdraw\<close>. The modifiers \<^verbatim>\<open>onlyPCVController\<close> and \<^verbatim>\<open>whenNotPaused\<close> belong to
  \<^verbatim>\<open>CoreRef\<close>, which is not among the sources: the outcome of the role check for the
  caller is the parameter \<open>authorized\<close>.
\<close>

definition withdraw :: "state \<Rightarrow> bool \<Rightarrow> address \<Rightarrow> nat \<Rightarrow> error + state" where
  "withdraw s authorized to amount =
     (if \<not> authorized then Inl Unauthorized
      else if paused s then Inl Paused
      else
        let aggregatorBalance = balance s in
        if aggregatorBalance > amount then safeTransfer s to amount
        else
          let underlyingBalances = getUnderlyingBalances s in
          andThen (array_sum underlyingBalances) (\<lambda>totalUnderlyingBalance.
          andThen (checked_add totalUnderlyingBalance aggregatorBalance) (\<lambda>totalBalance.
          if \<not> totalBalance \<ge> amount then Inl InsufficientTotalBalance
          else
            andThen (checked_sub amount aggregatorBalance) (\<lambda>amountNeededFromUnderlying.
            andThen (checked_sub totalUnderlyingBalance amountNeededFromUnderlying) (\<lambda>totalUnderlyingBalanceAfterWithdraw.
            andThen (traverse (\<lambda>depositAddress.
                        mulDiv totalUnderlyingBalanceAfterWithdraw (pcvDepositWeights s depositAddress) (totalWeight s))
                      (pcvDepositAddresses s)) (\<lambda>idealUnderlyingBalancesPostWithdraw.
            andThen (withdraw_loop s (zip (pcvDepositAddresses s)
                        (zip underlyingBalances idealUnderlyingBalancesPostWithdraw))) (\<lambda>s1.
            safeTransfer s1 to amount)))))))"

subsection \<open>Weights and membership\<close>

definition setBufferWeight :: "state \<Rightarrow> bool \<Rightarrow> nat \<Rightarrow> error + state" where
  "setBufferWeight s authorized newBufferWeight =
     (if \<not> authorized then Inl Unauthorized
      else
        andThen (toInt256 newBufferWeight) (\<lambda>a.
        andThen (toInt256 (bufferWeight s)) (\<lambda>b.
        andThen (int256_sub a b) (\<lambda>difference.
        andThen (toInt256 (totalWeight s)) (\<lambda>t.
        andThen (int256_add t difference) (\<lambda>r.
        andThen (toUint256 r) (\<lambda>newTotalWeight.
        Inr (s\<lparr>bufferWeight := newBufferWeight, totalWeight := newTotalWeight\<rparr>))))))))"

definition setPCVDepositWeight :: "state \<Rightarrow> bool \<Rightarrow> address \<Rightarrow> nat \<Rightarrow> error + state" where
  "setPCVDepositWeight s authorized depositAddress newDepositWeight =
     (if \<not> authorized then Inl Unauthorized
      else if \<not> EnumerableSet_contains (pcvDepositAddresses s) depositAddress then Inl UnknownDeposit
      else
        let oldDepositWeight = pcvDepositWeights s depositAddress in
        andThen (toInt256 newDepositWeight) (\<lambda>a.
        andThen (toInt256 oldDepositWeight) (\<lambda>b.
        andThen (int256_sub a b) (\<lambda>difference.
        andThen (toInt256 (totalWeight s)) (\<lambda>t.
        andThen (int256_add t difference) (\<lambda>r.
        andThen (toUint256 r) (\<lambda>newTotalWeight.
        Inr (s\<lparr>pcvDepositWeights := (pcvDepositWeights s)(depositAddress := newDepositWeight),
               totalWeight := newTotalWeight\<rparr>))))))))"

definition internal_addPCVDeposit :: "state \<Rightarrow> address \<Rightarrow> nat \<Rightarrow> error + state" where
  "internal_addPCVDeposit s depositAddress weight =
     (if \<not> \<not> EnumerableSet_contains (pcvDepositAddresses s) depositAddress then Inl DuplicateDeposit
      else
        andThen (checked_add (totalWeight s) weight) (\<lambda>newTotalWeight.
        Inr (s\<lparr>pcvDepositAddresses := EnumerableSet_add (pcvDepositAddresses s) depositAddress,
               pcvDepositWeights := (pcvDepositWeights s)(depositAddress := weight),
               totalWeight := newTotalWeight\<rparr>)))"

definition addPCVDeposit :: "state \<Rightarrow> bool \<Rightarrow> address \<Rightarrow> nat \<Rightarrow> error + state" where
  "addPCVDeposit s authorized newPCVDeposit weight =
     (if \<not> authorized then Inl Unauthorized else internal_addPCVDeposit s newPCVDeposit weight)"

definition internal_removePCVDeposit :: "state \<Rightarrow> address \<Rightarrow> error + state" where
  "internal_removePCVDeposit s depositAddress =
     (if \<not> EnumerableSet_contains (pcvDepositAddresses s) depositAddress then Inl UnknownDeposit
      else if pcvDepositWeights s depositAddress = 0 \<and> IPCVDeposit_balance s depositAddress = 0
      then Inr (s\<lparr>pcvDepositAddresses := EnumerableSet_remove (pcvDepositAddresses s) depositAddress\<rparr>)
      else
        andThen (checked_sub (totalWeight s) (pcvDepositWeights s depositAddress)) (\<lambda>newTotalWeight.
        let s1 = s\<lparr>totalWeight := newTotalWeight\<rparr>;
            s2 = s1\<lparr>pcvDepositWeights := (pcvDepositWeights s1)(depositAddress := 0)\<rparr> in
        andThen (internal_rebalanceSingle s2 depositAddress) (\<lambda>s3.
        Inr (s3\<lparr>pcvDepositAddresses := EnumerableSet_remove (pcvDepositAddresses s3) depositAddress\<rparr>))))"

definition removePCVDeposit :: "state \<Rightarrow> bool \<Rightarrow> address \<Rightarrow> error + state" where
  "removePCVDeposit s authorized pcvDeposit =
     (if \<not> authorized then Inl Unauthorized else internal_removePCVDeposit s pcvDeposit)"

text \<open>
  The constructor. Besides its arguments it is given the address the contract is
  deployed at and the token ledger at deployment.
\<close>

fun add_initial :: "state \<Rightarrow> (address \<times> nat) list \<Rightarrow> error + state" where
  "add_initial s [] = Inr s"
| "add_initial s ((depositAddress, weight) # rest) =
     andThen (internal_addPCVDeposit s depositAddress weight) (\<lambda>s1. add_initial s1 rest)"

definition constructor ::
  "address \<Rightarrow> address \<Rightarrow> address list \<Rightarrow> nat list \<Rightarrow> nat \<Rightarrow> address \<Rightarrow> (address \<Rightarrow> nat) \<Rightarrow> error + state" where
  "constructor rewardsAssetManager' token' initialPCVDepositAddresses initialPCVDepositWeights
       bufferWeight' this ledger =
     (if \<not> length initialPCVDepositAddresses = length initialPCVDepositWeights then Inl LengthMismatch
      else if \<not> rewardsAssetManager' \<noteq> 0 then Inl NullRewardsAssetManager
      else
        add_initial
          \<lparr>pcvDepositAddresses = [], pcvDepositWeights = (\<lambda>_. 0),
           bufferWeight = bufferWeight', totalWeight = bufferWeight',
           rewardsAssetManager = rewardsAssetManager', token = token',
           thisAddress = this, paused = False, tokenBalances = ledger, calls = []\<rparr>
          (zip initialPCVDepositAddresses initialPCVDepositWeights))"

subsection \<open>The quantities of the specification\<close>

text \<open>
  The balance snapshot and the target computation as the specification words them:
  the total balance is the aggregator's idle balance plus the balances of all
  registered deposits, the ideal balance of a deposit is its weighted share of the
  total (integer division), and its distance is the ideal balance minus the actual one.
\<close>

definition sumOfDepositBalances :: "state \<Rightarrow> nat" where
  "sumOfDepositBalances s = sum_list (map (tokenBalances s) (pcvDepositAddresses s))"

definition totalBalance :: "state \<Rightarrow> nat" where
  "totalBalance s = balance s + sumOfDepositBalances s"

definition idealBalance :: "state \<Rightarrow> address \<Rightarrow> nat" where
  "idealBalance s d = totalBalance s * pcvDepositWeights s d div totalWeight s"

definition distance :: "state \<Rightarrow> address \<Rightarrow> int" where
  "distance s d = int (idealBalance s d) - int (tokenBalances s d)"

definition weightSum :: "state \<Rightarrow> nat" where
  "weightSum s = sum_list (map (pcvDepositWeights s) (pcvDepositAddresses s))"

text \<open>
  The distance of a deposit can be computed in 256 bits: the product fits a
  \<^verbatim>\<open>uint256\<close>, the total weight is not zero, and both balances fit an \<^verbatim>\<open>int256\<close>.
\<close>

definition distance_in_range :: "state \<Rightarrow> address \<Rightarrow> bool" where
  "distance_in_range s d \<longleftrightarrow>
     totalBalance s * pcvDepositWeights s d < 2 ^ 256 \<and> totalWeight s \<noteq> 0 \<and>
     idealBalance s d < 2 ^ 255 \<and> tokenBalances s d < 2 ^ 255"

subsection \<open>Example states\<close>

text \<open>
  Three deposits \<open>1\<close>, \<open>2\<close>, \<open>3\<close> with weights 1, 1, 2 and buffer weight 0, the
  aggregator at address \<open>9\<close>; the arguments are the balances of the three deposits
  and the idle balance of the aggregator.
\<close>

definition example_state :: "nat \<Rightarrow> nat \<Rightarrow> nat \<Rightarrow> nat \<Rightarrow> state" where
  "example_state b1 b2 b3 idle =
     \<lparr>pcvDepositAddresses = [1, 2, 3],
      pcvDepositWeights = (\<lambda>a. if a = 1 then 1 else if a = 2 then 1 else if a = 3 then 2 else 0),
      bufferWeight = 0, totalWeight = 4, rewardsAssetManager = 7, token = 8,
      thisAddress = 9, paused = False,
      tokenBalances = (\<lambda>a. if a = 1 then b1 else if a = 2 then b2 else if a = 3 then b3
                            else if a = 9 then idle else 0),
      calls = []\<rparr>"

text \<open>One deposit of weight 1 holding 10 tokens, buffer weight 1, idle balance 5.\<close>

definition example_buffered :: state where
  "example_buffered =
     \<lparr>pcvDepositAddresses = [1],
      pcvDepositWeights = (\<lambda>a. if a = 1 then 1 else 0),
      bufferWeight = 1, totalWeight = 2, rewardsAssetManager = 7, token = 8,
      thisAddress = 9, paused = False,
      tokenBalances = (\<lambda>a. if a = 1 then 10 else if a = 9 then 5 else 0),
      calls = []\<rparr>"


subsection \<open>Sequences of transactions\<close>

text \<open>
  The transactions the aggregator can receive, each with the outcome of the access
  check where the function has one, and a step of the environment: other parties
  move tokens and the guardian pauses or unpauses the contract.
\<close>

datatype operation =
    AddPCVDeposit bool address nat
  | RemovePCVDeposit bool address
  | SetPCVDepositWeight bool address nat
  | SetBufferWeight bool nat
  | Rebalance
  | RebalanceSingle address
  | Deposit
  | Withdraw bool address nat
  | Environment "address \<Rightarrow> nat" bool

fun apply_operation :: "state \<Rightarrow> operation \<Rightarrow> error + state" where
  "apply_operation s (AddPCVDeposit authorized a w) = addPCVDeposit s authorized a w"
| "apply_operation s (RemovePCVDeposit authorized a) = removePCVDeposit s authorized a"
| "apply_operation s (SetPCVDepositWeight authorized a w) = setPCVDepositWeight s authorized a w"
| "apply_operation s (SetBufferWeight authorized w) = setBufferWeight s authorized w"
| "apply_operation s Rebalance = rebalance s"
| "apply_operation s (RebalanceSingle a) = rebalanceSingle s a"
| "apply_operation s Deposit = deposit s"
| "apply_operation s (Withdraw authorized to amount) = withdraw s authorized to amount"
| "apply_operation s (Environment ledger p) = Inr (s\<lparr>tokenBalances := ledger, paused := p\<rparr>)"

text \<open>A transaction that reverts leaves the state as it was.\<close>

fun run :: "state \<Rightarrow> operation list \<Rightarrow> state" where
  "run s [] = s"
| "run s (op # ops) = (case apply_operation s op of Inl e \<Rightarrow> run s ops | Inr s' \<Rightarrow> run s' ops)"

text \<open>The registry is a set, and the cached total weight is consistent.\<close>

definition registry_inv :: "state \<Rightarrow> bool" where
  "registry_inv s \<longleftrightarrow>
     distinct (pcvDepositAddresses s) \<and> totalWeight s = bufferWeight s + weightSum s"

text \<open>
  Two states with the same registry, weights, address and pause flag: what the
  transfers of tokens and the calls to the deposits leave untouched.
\<close>

definition same_registry :: "state \<Rightarrow> state \<Rightarrow> bool" where
  "same_registry s s' \<longleftrightarrow>
     pcvDepositAddresses s' = pcvDepositAddresses s \<and>
     pcvDepositWeights s' = pcvDepositWeights s \<and>
     bufferWeight s' = bufferWeight s \<and> totalWeight s' = totalWeight s \<and>
     thisAddress s' = thisAddress s \<and> paused s' = paused s"

subsection \<open>The calls of a full rebalance\<close>

text \<open>
  The external calls the two loops of \<^verbatim>\<open>_rebalance\<close> make for a list of registry
  slots paired with distances: a withdrawal of the excess for every negative
  distance, a transfer of the shortfall followed by \<^verbatim>\<open>deposit()\<close> for every positive
  one.
\<close>

definition withdraw_calls :: "(address \<times> int) list \<Rightarrow> call list" where
  "withdraw_calls zs =
     map (\<lambda>(a, dist). SubWithdraw a (nat (- dist))) (filter (\<lambda>(a, dist). dist < 0) zs)"

definition deposit_calls :: "(address \<times> int) list \<Rightarrow> call list" where
  "deposit_calls zs =
     concat (map (\<lambda>(a, dist). [TokenTransfer a (nat dist), SubDeposit a])
                 (filter (\<lambda>(a, dist). dist > 0) zs))"

text \<open>
  Replaying a log of calls against the idle balance of the aggregator: every
  withdrawal from a deposit adds to it, every transfer must be covered by it at the
  moment it is made and takes from it.
\<close>

fun transfers_funded :: "nat \<Rightarrow> call list \<Rightarrow> bool" where
  "transfers_funded idle [] = True"
| "transfers_funded idle (SubWithdraw a n # cs) = transfers_funded (idle + n) cs"
| "transfers_funded idle (TokenTransfer a n # cs) = (n \<le> idle \<and> transfers_funded (idle - n) cs)"
| "transfers_funded idle (SubDeposit a # cs) = transfers_funded idle cs"

section \<open>Properties\<close>

subsection \<open>Sequencing and checked arithmetic\<close>

lemma andThen_Inl [simp]: "andThen (Inl e) f = Inl e"
  by (simp add: andThen_def)

lemma andThen_Inr [simp]: "andThen (Inr x) f = f x"
  by (simp add: andThen_def)

lemma andThen_eq_Inr: "andThen r f = Inr y \<longleftrightarrow> (\<exists>x. r = Inr x \<and> f x = Inr y)"
  by (cases r) simp_all

lemma andThen_eq_Inl: "andThen r f = Inl e \<longleftrightarrow> r = Inl e \<or> (\<exists>x. r = Inr x \<and> f x = Inl e)"
  by (cases r) simp_all

lemma sum_from_eq:
  "acc < 2 ^ 256 \<Longrightarrow> sum_from acc xs =
     (if acc + sum_list xs < 2 ^ 256 then Inr (acc + sum_list xs) else Inl ArithmeticPanic)"
proof (induction xs arbitrary: acc)
  case Nil
  then show ?case by simp
next
  case (Cons x xs)
  show ?case
  proof (cases "acc + x < 2 ^ 256")
    case True
    then show ?thesis by (simp add: checked_add_def Cons.IH add.assoc)
  next
    case False
    then have "\<not> acc + (x + sum_list xs) < 2 ^ 256" by linarith
    with False show ?thesis by (simp add: checked_add_def)
  qed
qed

lemma array_sum_eq:
  "array_sum xs = (if sum_list xs < 2 ^ 256 then Inr (sum_list xs) else Inl ArithmeticPanic)"
  by (simp add: array_sum_def sum_from_eq)

lemma mulDiv_eq:
  "mulDiv a b c =
     (if \<not> a * b < 2 ^ 256 then Inl ArithmeticPanic
      else if c = 0 then Inl DivisionByZero else Inr (a * b div c))"
  by (simp add: mulDiv_def checked_mul_def checked_div_def)

lemma int256_small:
  assumes "a < 2 ^ 255" "b < 2 ^ 255"
  shows "int256 (int a - int b) = Inr (int a - int b)"
proof -
  have "int a < 2 ^ 255" "int b < 2 ^ 255" using assms by simp_all
  then show ?thesis by (simp add: int256_def)
qed

lemma traverse_Inr_iff: "traverse f xs = Inr ys \<longleftrightarrow> list_all2 (\<lambda>x y. f x = Inr y) xs ys"
proof (induction xs arbitrary: ys)
  case Nil
  then show ?case by auto
next
  case (Cons x xs)
  show ?case
    by (cases ys) (auto simp: andThen_eq_Inr Cons.IH)
qed

lemma traverse_map: "traverse f (map g xs) = traverse (\<lambda>x. f (g x)) xs"
  by (induction xs) simp_all

lemma list_all2_graph:
  "list_all2 (\<lambda>x y. P x \<and> y = g x) xs ys \<longleftrightarrow> (\<forall>x\<in>set xs. P x) \<and> ys = map g xs"
proof (induction xs arbitrary: ys)
  case Nil
  then show ?case by auto
next
  case (Cons x xs)
  show ?case by (cases ys) (auto simp: Cons.IH)
qed

lemma zip_with_balances: "zip xs (map f xs) = map (\<lambda>a. (a, f a)) xs"
  by (induction xs) simp_all

lemma traverse_mulDiv_error:
  "traverse (\<lambda>a. mulDiv x (f a) c) xs = Inl e \<Longrightarrow> e = ArithmeticPanic \<or> e = DivisionByZero"
  by (induction xs) (auto simp: andThen_eq_Inl mulDiv_eq split: if_splits)

subsection \<open>The views compute the quantities of the specification\<close>

lemma IPCVDeposit_balance_fun: "IPCVDeposit_balance s = tokenBalances s"
  by (rule ext) (simp add: IPCVDeposit_balance_def)

lemma getUnderlyingBalances_eq:
  "getUnderlyingBalances s = map (tokenBalances s) (pcvDepositAddresses s)"
  by (simp add: getUnderlyingBalances_def IPCVDeposit_balance_fun)

lemma getUnderlyingBalancesAndSum_eq:
  "getUnderlyingBalancesAndSum s =
     (if sumOfDepositBalances s < 2 ^ 256
      then Inr (balance s, sumOfDepositBalances s, map (tokenBalances s) (pcvDepositAddresses s))
      else Inl ArithmeticPanic)"
  by (simp add: getUnderlyingBalancesAndSum_def getUnderlyingBalances_eq array_sum_eq
        sumOfDepositBalances_def Let_def)

lemma getTotalBalance_eq:
  "getTotalBalance s =
     (if totalBalance s < 2 ^ 256 then Inr (totalBalance s) else Inl ArithmeticPanic)"
  by (auto simp: getTotalBalance_def array_sum_eq getUnderlyingBalances_eq checked_add_def
        totalBalance_def sumOfDepositBalances_def add.commute)

lemma amountFromTarget_eq:
  "amountFromTarget s d =
     (if \<not> totalBalance s < 2 ^ 256 then Inl ArithmeticPanic
      else if \<not> totalBalance s * pcvDepositWeights s d < 2 ^ 256 then Inl ArithmeticPanic
      else if totalWeight s = 0 then Inl DivisionByZero
      else if \<not> tokenBalances s d < 2 ^ 255 then Inl SafeCastOverflow
      else if \<not> idealBalance s d < 2 ^ 255 then Inl SafeCastOverflow
      else Inr (- distance s d))"
  by (simp add: amountFromTarget_def getTotalBalance_eq mulDiv_eq toInt256_def int256_sub_def
        int256_small IPCVDeposit_balance_def idealBalance_def distance_def mult.commute Let_def)

lemma amountFromTarget_in_range:
  "totalBalance s < 2 ^ 256 \<Longrightarrow> distance_in_range s d \<Longrightarrow> amountFromTarget s d = Inr (- distance s d)"
  by (simp add: amountFromTarget_eq distance_in_range_def)

lemma amountFromTarget_Inr_iff:
  "amountFromTarget s d = Inr a \<longleftrightarrow>
     totalBalance s < 2 ^ 256 \<and> distance_in_range s d \<and> a = - distance s d"
  by (auto simp: amountFromTarget_eq distance_in_range_def)

lemma distance_bounds:
  assumes "distance_in_range s d"
  shows "- (2 ^ 255) < distance s d \<and> distance s d < 2 ^ 255"
proof -
  from assms have a: "idealBalance s d < 2 ^ 255" and b: "tokenBalances s d < 2 ^ 255"
    by (simp_all add: distance_in_range_def)
  have "int (idealBalance s d) < 2 ^ 255" "int (tokenBalances s d) < 2 ^ 255"
    using a b by simp_all
  then show ?thesis by (simp add: distance_def)
qed

lemma int256_neg_distance:
  "distance_in_range s d \<Longrightarrow> int256_mul (- 1) (- distance s d) = Inr (distance s d)"
  using distance_bounds [of s d] by (simp add: int256_mul_def int256_def)

lemma distance_entry:
  "andThen (mulDiv (totalBalance s) (pcvDepositWeights s a) (totalWeight s)) (\<lambda>idealAmount.
   andThen (toInt256 idealAmount) (\<lambda>x.
   andThen (toInt256 (tokenBalances s a)) (\<lambda>y. int256_sub x y))) = Inr d
   \<longleftrightarrow> distance_in_range s a \<and> d = distance s a"
  by (auto simp: mulDiv_eq toInt256_def int256_sub_def int256_small distance_in_range_def
        idealBalance_def distance_def)

lemma getAllAmountsFromTargets_Inr_iff:
  "getAllAmountsFromTargets s = Inr ds \<longleftrightarrow>
     totalBalance s < 2 ^ 256 \<and> (\<forall>a\<in>set (pcvDepositAddresses s). distance_in_range s a) \<and>
     ds = map (distance s) (pcvDepositAddresses s)"
proof (cases "totalBalance s < 2 ^ 256")
  case False
  then have "getAllAmountsFromTargets s = Inl ArithmeticPanic"
    by (simp add: getAllAmountsFromTargets_def getUnderlyingBalancesAndSum_eq checked_add_def
          totalBalance_def)
  with False show ?thesis by simp
next
  case True
  then have u: "sumOfDepositBalances s < 2 ^ 256" by (simp add: totalBalance_def)
  have "getAllAmountsFromTargets s =
      traverse (\<lambda>a. andThen (mulDiv (totalBalance s) (pcvDepositWeights s a) (totalWeight s)) (\<lambda>idealAmount.
         andThen (toInt256 idealAmount) (\<lambda>x.
         andThen (toInt256 (tokenBalances s a)) (\<lambda>y. int256_sub x y)))) (pcvDepositAddresses s)"
    using True u
    by (simp add: getAllAmountsFromTargets_def getUnderlyingBalancesAndSum_eq checked_add_def
          zip_with_balances traverse_map flip: totalBalance_def)
  then show ?thesis
    using True by (simp add: traverse_Inr_iff distance_entry list_all2_graph)
qed

lemmas example_simps =
  example_state_def distance_in_range_def totalBalance_def sumOfDepositBalances_def
  idealBalance_def distance_def balance_def

text \<open>
  Claim C10: the two distance views use opposite signs. Whenever
  \<^verbatim>\<open>getAllAmountsFromTargets\<close> returns, its entry for slot \<open>i\<close> of the registry is the
  ideal balance minus the actual balance of the deposit in that slot, and
  \<^verbatim>\<open>amountFromTarget\<close> of the same deposit returns the actual balance minus the ideal
  one, the exact negation.
\<close>

theorem amountFromTarget_negates_getAllAmountsFromTargets:
  assumes "getAllAmountsFromTargets s = Inr ds" "i < length (pcvDepositAddresses s)"
  shows "length ds = length (pcvDepositAddresses s) \<and>
         ds ! i = int (idealBalance s (pcvDepositAddresses s ! i))
                    - int (tokenBalances s (pcvDepositAddresses s ! i)) \<and>
         amountFromTarget s (pcvDepositAddresses s ! i) =
           Inr (int (tokenBalances s (pcvDepositAddresses s ! i))
                  - int (idealBalance s (pcvDepositAddresses s ! i))) \<and>
         amountFromTarget s (pcvDepositAddresses s ! i) = Inr (- (ds ! i))"
  using assms
  by (auto simp: getAllAmountsFromTargets_Inr_iff amountFromTarget_in_range distance_def)

theorem amountFromTarget_negates_getAllAmountsFromTargets_witness:
  "getAllAmountsFromTargets (example_state 400 0 0 0) = Inr [- 300, 100, 200] \<and>
   amountFromTarget (example_state 400 0 0 0) 1 = Inr 300 \<and>
   amountFromTarget (example_state 400 0 0 0) 3 = Inr (- 200)"
proof -
  have g: "getAllAmountsFromTargets (example_state 400 0 0 0) = Inr [- 300, 100, 200]"
    by (simp add: getAllAmountsFromTargets_Inr_iff example_simps)
  show ?thesis
    using amountFromTarget_negates_getAllAmountsFromTargets [OF g, of 0]
      amountFromTarget_negates_getAllAmountsFromTargets [OF g, of 2] g
    by (simp add: example_state_def)
qed

subsection \<open>Rebalancing a single deposit\<close>

lemma internal_rebalanceSingle_eq:
  assumes "d \<in> set (pcvDepositAddresses s)" "totalBalance s < 2 ^ 256" "distance_in_range s d"
  shows "internal_rebalanceSingle s d =
     (if distance s d = 0 then Inl NoRebalanceNeeded
      else if distance s d > 0 then
        (if balance s < nat (distance s d) then Inl InsufficientAggregatorLiquidity
         else Inr (s\<lparr>tokenBalances := moved (tokenBalances s) (thisAddress s) d (nat (distance s d)),
                     calls := calls s @ [TokenTransfer d (nat (distance s d)), SubDeposit d]\<rparr>))
      else Inr (s\<lparr>tokenBalances := moved (tokenBalances s) d (thisAddress s) (nat (- distance s d)),
                  calls := calls s @ [SubWithdraw d (nat (- distance s d))]\<rparr>))"
proof -
  have a: "amountFromTarget s d = Inr (- distance s d)"
    using assms by (simp add: amountFromTarget_in_range)
  have m: "int256_mul (- 1) (- distance s d) = Inr (distance s d)"
    using assms by (simp add: int256_neg_distance)
  have le: "nat (- distance s d) \<le> tokenBalances s d"
    by (simp add: distance_def)
  show ?thesis
  proof (cases "distance s d = 0")
    case True
    then show ?thesis
      using assms(1) by (simp add: internal_rebalanceSingle_def EnumerableSet_contains_def a)
  next
    case nz: False
    show ?thesis
    proof (cases "distance s d > 0")
      case True
      then show ?thesis
        using assms(1) nz
        by (simp add: internal_rebalanceSingle_def EnumerableSet_contains_def a m toUint256_def
              safeTransfer_def balance_def IPCVDeposit_deposit_def)
    next
      case False
      with nz have neg: "distance s d < 0" by simp
      then show ?thesis
        using assms(1) nz le
        by (simp add: internal_rebalanceSingle_def EnumerableSet_contains_def a toUint256_def
              IPCVDeposit_withdraw_def)
    qed
  qed
qed

text \<open>
  Claim C6: for a registered deposit of an unpaused aggregator whose distance can be
  computed in 256 bits, \<^verbatim>\<open>rebalanceSingle\<close> fails with the error "No rebalance
  needed." if and only if the distance of the deposit (ideal balance minus actual
  balance, the ideal balance being total balance times weight divided by total
  weight) is zero.
\<close>

theorem rebalanceSingle_NoRebalanceNeeded_iff:
  assumes "\<not> paused s" "d \<in> set (pcvDepositAddresses s)"
    and "totalBalance s < 2 ^ 256" "distance_in_range s d"
  shows "rebalanceSingle s d = Inl NoRebalanceNeeded \<longleftrightarrow> distance s d = 0"
  using assms by (simp add: rebalanceSingle_def internal_rebalanceSingle_eq)

theorem rebalanceSingle_NoRebalanceNeeded_iff_witness:
  "rebalanceSingle (example_state 100 100 200 0) 1 = Inl NoRebalanceNeeded \<and>
   distance (example_state 100 100 200 0) 1 = 0 \<and>
   rebalanceSingle (example_state 400 0 0 0) 1 \<noteq> Inl NoRebalanceNeeded \<and>
   distance (example_state 400 0 0 0) 1 = - 300"
  using rebalanceSingle_NoRebalanceNeeded_iff [of "example_state 100 100 200 0" 1]
    rebalanceSingle_NoRebalanceNeeded_iff [of "example_state 400 0 0 0" 1]
  by (simp add: example_simps)

text \<open>
  Claim C7: for a registered deposit, other than the aggregator itself, with a
  nonzero distance (ideal minus actual balance). If the distance is negative, \<^verbatim>\<open>rebalanceSingle\<close> succeeds and withdraws
  exactly the excess from the deposit into the aggregator. If it is positive, the
  call fails with "Cannot rebalance this deposit, please rebalance another one
  first." exactly when the idle balance of the aggregator is less than the distance,
  and otherwise transfers the distance from the aggregator to the deposit and calls
  the deposit's \<^verbatim>\<open>deposit()\<close>.
\<close>

theorem rebalanceSingle_closes_distance:
  assumes "\<not> paused s" "d \<in> set (pcvDepositAddresses s)" "d \<noteq> thisAddress s"
    and "totalBalance s < 2 ^ 256" "distance_in_range s d" "distance s d \<noteq> 0"
  shows "(distance s d < 0 \<longrightarrow>
            rebalanceSingle s d =
              Inr (s\<lparr>tokenBalances := moved (tokenBalances s) d (thisAddress s) (nat (- distance s d)),
                     calls := calls s @ [SubWithdraw d (nat (- distance s d))]\<rparr>)) \<and>
         (distance s d > 0 \<longrightarrow>
            (rebalanceSingle s d = Inl InsufficientAggregatorLiquidity \<longleftrightarrow>
               balance s < nat (distance s d)) \<and>
            (\<not> balance s < nat (distance s d) \<longrightarrow>
               rebalanceSingle s d =
                 Inr (s\<lparr>tokenBalances := moved (tokenBalances s) (thisAddress s) d (nat (distance s d)),
                        calls := calls s @ [TokenTransfer d (nat (distance s d)), SubDeposit d]\<rparr>)))"
  using assms by (simp add: rebalanceSingle_def internal_rebalanceSingle_eq)

theorem rebalanceSingle_closes_distance_witness:
  "(\<exists>s'. rebalanceSingle (example_state 400 0 0 0) 1 = Inr s' \<and>
         tokenBalances s' 1 = 100 \<and> tokenBalances s' 9 = 300 \<and> calls s' = [SubWithdraw 1 300]) \<and>
   rebalanceSingle (example_state 400 0 0 0) 2 = Inl InsufficientAggregatorLiquidity \<and>
   (\<exists>s'. rebalanceSingle (example_state 100 0 0 300) 2 = Inr s' \<and>
         tokenBalances s' 2 = 100 \<and> tokenBalances s' 9 = 200 \<and>
         calls s' = [TokenTransfer 2 100, SubDeposit 2])"
  using rebalanceSingle_closes_distance [of "example_state 400 0 0 0" 1]
    rebalanceSingle_closes_distance [of "example_state 400 0 0 0" 2]
    rebalanceSingle_closes_distance [of "example_state 100 0 0 300" 2]
  by (simp add: example_simps moved_def)

subsection \<open>Deposit and withdraw\<close>

lemma withdraw_loop_error:
  "withdraw_loop s zs = Inl e \<Longrightarrow> e = DepositWithdrawFailed"
proof (induction zs arbitrary: s)
  case Nil
  then show ?case by simp
next
  case (Cons z zs)
  obtain a actual ideal where z: "z = (a, actual, ideal)" by (cases z) auto
  from Cons.prems show ?case
    unfolding z
    by (auto simp: andThen_eq_Inl checked_sub_def IPCVDeposit_withdraw_def
          split: if_splits dest: Cons.IH)
qed

lemma safeTransfer_error: "safeTransfer s to amount = Inl e \<Longrightarrow> e = TransferExceedsBalance"
  by (simp add: safeTransfer_def split: if_splits)

text \<open>A withdrawal of less than the idle balance is one transfer out of the aggregator.\<close>

lemma withdraw_fast_path:
  "authorized \<Longrightarrow> \<not> paused s \<Longrightarrow> amount < balance s \<Longrightarrow>
   withdraw s authorized to amount =
     Inr (s\<lparr>tokenBalances := moved (tokenBalances s) (thisAddress s) to amount,
            calls := calls s @ [TokenTransfer to amount]\<rparr>)"
  by (simp add: withdraw_def safeTransfer_def balance_def)

text \<open>
  Claim C8: \<^verbatim>\<open>withdraw\<close>, called by the PCV controller on an unpaused aggregator with
  an amount that is a \<^verbatim>\<open>uint256\<close>, fails with "Not enough balance to withdraw"
  exactly when the amount exceeds the total balance, the idle balance of the
  aggregator plus the balances of all registered deposits at the time of the call.
\<close>

theorem withdraw_InsufficientTotalBalance_iff:
  assumes "authorized" "\<not> paused s" "amount < 2 ^ 256"
  shows "withdraw s authorized to amount = Inl InsufficientTotalBalance \<longleftrightarrow> totalBalance s < amount"
proof (cases "amount < balance s")
  case True
  then have "\<not> totalBalance s < amount" by (simp add: totalBalance_def)
  with True assms show ?thesis by (simp add: withdraw_fast_path)
next
  case slow: False
  have sum: "sum_list (getUnderlyingBalances s) = sumOfDepositBalances s"
    by (simp add: getUnderlyingBalances_eq sumOfDepositBalances_def)
  show ?thesis
  proof (cases "totalBalance s < 2 ^ 256")
    case False
    with assms(3) have "\<not> totalBalance s < amount" by simp
    moreover have "withdraw s authorized to amount = Inl ArithmeticPanic"
      using assms slow False
      by (auto simp: withdraw_def Let_def array_sum_eq sum checked_add_def totalBalance_def add.commute)
    ultimately show ?thesis by simp
  next
    case inrange: True
    then have u: "sumOfDepositBalances s < 2 ^ 256" by (simp add: totalBalance_def)
    show ?thesis
    proof (cases "totalBalance s < amount")
      case True
      then show ?thesis
        using assms slow inrange u
        by (simp add: withdraw_def Let_def array_sum_eq sum checked_add_def totalBalance_def add.commute)
    next
      case False
      have "withdraw s authorized to amount \<noteq> Inl InsufficientTotalBalance"
      proof
        assume "withdraw s authorized to amount = Inl InsufficientTotalBalance"
        then show False
          using assms slow inrange u False
          by (auto simp: withdraw_def Let_def array_sum_eq sum checked_add_def totalBalance_def
                add.commute andThen_eq_Inl checked_sub_def
                dest: traverse_mulDiv_error withdraw_loop_error safeTransfer_error split: if_splits)
      qed
      with False show ?thesis by simp
    qed
  qed
qed

theorem withdraw_InsufficientTotalBalance_iff_witness:
  "withdraw (example_state 100 100 200 0) True 5 401 = Inl InsufficientTotalBalance \<and>
   withdraw (example_state 100 100 200 0) True 5 400 \<noteq> Inl InsufficientTotalBalance \<and>
   totalBalance (example_state 100 100 200 0) = 400"
  using withdraw_InsufficientTotalBalance_iff [of True "example_state 100 100 200 0" 401 5]
    withdraw_InsufficientTotalBalance_iff [of True "example_state 100 100 200 0" 400 5]
  by (simp add: example_simps)

text \<open>
  Claim C3: a withdrawal of at most the idle balance is served from idle funds alone,
  with no call to any deposit. The guard of the fast path is a strict comparison, so a
  withdrawal of exactly the idle balance takes the slow path: here the aggregator
  holds 5 idle tokens, 5 are withdrawn, and the deposit is asked for 5 of its 10.
\<close>

theorem withdraw_of_whole_idle_balance_pulls_from_deposit:
  "balance example_buffered = 5 \<and>
   withdraw example_buffered True 3 5 =
     Inr (example_buffered
            \<lparr>tokenBalances := (\<lambda>a. if a = 1 then 5 else if a = 3 then 5 else if a = 9 then 5 else 0),
             calls := [SubWithdraw 1 5, TokenTransfer 3 5]\<rparr>) \<and>
   tokenBalances example_buffered 1 = 10"
  by (simp add: withdraw_def example_buffered_def balance_def Let_def getUnderlyingBalances_eq
        array_sum_eq checked_add_def checked_sub_def mulDiv_eq IPCVDeposit_withdraw_def
        safeTransfer_def moved_def fun_eq_iff)

text \<open>A call of \<^verbatim>\<open>deposit\<close> that returns has changed nothing.\<close>

lemma deposit_Inr_unchanged:
  assumes "deposit s = Inr s'"
  shows "s' = s"
proof -
  from assms have np: "\<not> paused s" by (auto simp: deposit_def split: if_splits)
  from assms np obtain a u bs where g: "getUnderlyingBalancesAndSum s = Inr (a, u, bs)"
    by (cases "getUnderlyingBalancesAndSum s") (auto simp: deposit_def)
  from assms np g obtain t where t: "checked_add u a = Inr t"
    by (cases "checked_add u a") (auto simp: deposit_def)
  from assms np g t obtain opt where opt: "mulDiv (bufferWeight s) t (totalWeight s) = Inr opt"
    by (cases "mulDiv (bufferWeight s) t (totalWeight s)") (auto simp: deposit_def)
  show ?thesis
  proof (cases "a \<le> opt")
    case True
    with assms np g t opt show ?thesis by (simp add: deposit_def)
  next
    case False
    then have "checked_sub opt a = Inl ArithmeticPanic" by (simp add: checked_sub_def)
    with assms np g t opt False show ?thesis by (simp add: deposit_def)
  qed
qed

text \<open>
  Whenever the idle balance exceeds the optimal aggregator balance, the subtraction
  \<^verbatim>\<open>optimalAggregatorBalance - actualAggregatorBalance\<close> underflows and the call reverts.
\<close>

lemma deposit_surplus_reverts:
  assumes "\<not> paused s" "totalBalance s < 2 ^ 256" "bufferWeight s * totalBalance s < 2 ^ 256"
    and "totalWeight s \<noteq> 0"
    and "bufferWeight s * totalBalance s div totalWeight s < balance s"
  shows "deposit s = Inl ArithmeticPanic"
proof -
  from assms(2) have u: "sumOfDepositBalances s < 2 ^ 256" by (simp add: totalBalance_def)
  have t: "sumOfDepositBalances s + balance s = totalBalance s" by (simp add: totalBalance_def)
  show ?thesis
    using assms u
    by (simp add: deposit_def getUnderlyingBalancesAndSum_eq checked_add_def t mulDiv_eq
          checked_sub_def)
qed

text \<open>
  Claim C2: when the idle balance exceeds the optimal aggregator balance,
  \<^verbatim>\<open>deposit\<close> distributes the surplus over the needy deposits and completes. With
  weights 1, 1, 2, buffer weight 0 and 400 idle tokens the optimal idle balance is 0,
  and the call reverts with an arithmetic panic instead.
\<close>

theorem deposit_of_idle_surplus_reverts:
  "bufferWeight (example_state 0 0 0 400) * totalBalance (example_state 0 0 0 400)
     div totalWeight (example_state 0 0 0 400) < balance (example_state 0 0 0 400) \<and>
   deposit (example_state 0 0 0 400) = Inl ArithmeticPanic"
  using deposit_surplus_reverts [of "example_state 0 0 0 400"]
  by (simp add: example_simps)


subsection \<open>The registry\<close>

lemma same_registry_refl [simp]: "same_registry s s"
  by (simp add: same_registry_def)

lemma same_registry_trans: "same_registry s s1 \<Longrightarrow> same_registry s1 s2 \<Longrightarrow> same_registry s s2"
  by (simp add: same_registry_def)

lemma safeTransfer_same_registry: "safeTransfer s to amount = Inr s' \<Longrightarrow> same_registry s s'"
  by (auto simp: safeTransfer_def same_registry_def split: if_splits)

lemma IPCVDeposit_withdraw_same_registry:
  "IPCVDeposit_withdraw s d to amount = Inr s' \<Longrightarrow> same_registry s s'"
  by (auto simp: IPCVDeposit_withdraw_def same_registry_def split: if_splits)

lemma IPCVDeposit_deposit_same_registry [simp]: "same_registry s (IPCVDeposit_deposit s d)"
  by (simp add: IPCVDeposit_deposit_def same_registry_def)

lemma internal_rebalanceSingle_same_registry:
  "internal_rebalanceSingle s d = Inr s' \<Longrightarrow> same_registry s s'"
  by (auto simp: internal_rebalanceSingle_def andThen_eq_Inr split: if_splits
        dest!: safeTransfer_same_registry IPCVDeposit_withdraw_same_registry
        intro: same_registry_trans [OF _ IPCVDeposit_deposit_same_registry])

lemma rebalance_withdraws_same_registry:
  "rebalance_withdraws s zs = Inr s' \<Longrightarrow> same_registry s s'"
proof (induction zs arbitrary: s)
  case Nil
  then show ?case by simp
next
  case (Cons z zs)
  obtain a dist where z: "z = (a, dist)" by (cases z)
  from Cons.prems show ?case
    unfolding z
    by (auto simp: andThen_eq_Inr split: if_splits
          dest!: IPCVDeposit_withdraw_same_registry Cons.IH intro: same_registry_trans)
qed

lemma rebalance_deposits_same_registry:
  "rebalance_deposits s zs = Inr s' \<Longrightarrow> same_registry s s'"
proof (induction zs arbitrary: s)
  case Nil
  then show ?case by simp
next
  case (Cons z zs)
  obtain a dist where z: "z = (a, dist)" by (cases z)
  show ?case
  proof (cases "dist > 0")
    case True
    with Cons.prems z obtain n s1 where
      t: "safeTransfer s a n = Inr s1" and r: "rebalance_deposits (IPCVDeposit_deposit s1 a) zs = Inr s'"
      by (auto simp: andThen_eq_Inr)
    from t have "same_registry s (IPCVDeposit_deposit s1 a)"
      by (blast intro: same_registry_trans safeTransfer_same_registry IPCVDeposit_deposit_same_registry)
    with Cons.IH [OF r] show ?thesis by (blast intro: same_registry_trans)
  next
    case False
    with Cons.prems z show ?thesis by (auto dest: Cons.IH)
  qed
qed

lemma rebalance_same_registry: "rebalance s = Inr s' \<Longrightarrow> same_registry s s'"
  by (auto simp: rebalance_def internal_rebalance_def andThen_eq_Inr split: if_splits
        dest!: rebalance_withdraws_same_registry rebalance_deposits_same_registry
        intro: same_registry_trans)

lemma withdraw_loop_same_registry:
  "withdraw_loop s zs = Inr s' \<Longrightarrow> same_registry s s'"
proof (induction zs arbitrary: s)
  case Nil
  then show ?case by simp
next
  case (Cons z zs)
  obtain a actual ideal where z: "z = (a, actual, ideal)" by (cases z) auto
  from Cons.prems show ?case
    unfolding z
    by (auto simp: andThen_eq_Inr split: if_splits
          dest!: IPCVDeposit_withdraw_same_registry Cons.IH intro: same_registry_trans)
qed

lemma withdraw_same_registry: "withdraw s authorized to amount = Inr s' \<Longrightarrow> same_registry s s'"
  by (auto simp: withdraw_def Let_def andThen_eq_Inr split: if_splits
        dest!: withdraw_loop_same_registry safeTransfer_same_registry
        intro: same_registry_trans)

lemma registry_inv_same_registry:
  "same_registry s s' \<Longrightarrow> registry_inv s \<Longrightarrow> registry_inv s'"
  by (simp add: same_registry_def registry_inv_def weightSum_def)


lemma rotate_last_set: "xs \<noteq> [] \<Longrightarrow> insert (last xs) (set (butlast xs)) = set xs"
proof -
  assume "xs \<noteq> []"
  then have "xs = butlast xs @ [last xs]" by simp
  then have "set xs = set (butlast xs @ [last xs])" by simp
  then show ?thesis by auto
qed

lemma rotate_last_distinct:
  "xs \<noteq> [] \<Longrightarrow> (last xs \<notin> set (butlast xs) \<and> distinct (butlast xs)) = distinct xs"
proof -
  assume "xs \<noteq> []"
  then have "xs = butlast xs @ [last xs]" by simp
  then have "distinct xs = distinct (butlast xs @ [last xs])" by simp
  then show ?thesis by auto
qed

lemma rotate_last_sum:
  "xs \<noteq> [] \<Longrightarrow> f (last xs) + sum_list (map f (butlast xs)) = sum_list (map (f :: 'a \<Rightarrow> nat) xs)"
proof -
  assume "xs \<noteq> []"
  then have "xs = butlast xs @ [last xs]" by simp
  then have "sum_list (map f xs) = sum_list (map f (butlast xs @ [last xs]))" by simp
  then show ?thesis by simp
qed

lemma EnumerableSet_remove_set:
  "distinct xs \<Longrightarrow> set (EnumerableSet_remove xs a) = set xs - {a}"
proof (induction xs)
  case Nil
  then show ?case by simp
next
  case (Cons x xs)
  show ?case
  proof (cases "x = a")
    case True
    with Cons.prems show ?thesis by (cases "xs = []") (simp_all add: rotate_last_set)
  next
    case False
    with Cons show ?thesis by auto
  qed
qed

lemma EnumerableSet_remove_distinct:
  "distinct xs \<Longrightarrow> distinct (EnumerableSet_remove xs a)"
proof (induction xs)
  case Nil
  then show ?case by simp
next
  case (Cons x xs)
  show ?case
  proof (cases "x = a")
    case True
    with Cons.prems show ?thesis by (cases "xs = []") (simp_all add: rotate_last_distinct)
  next
    case False
    with Cons show ?thesis by (auto simp: EnumerableSet_remove_set)
  qed
qed

lemma EnumerableSet_remove_sum:
  "a \<in> set xs \<Longrightarrow> sum_list (map f (EnumerableSet_remove xs a)) + f a = sum_list (map (f :: address \<Rightarrow> nat) xs)"
proof (induction xs)
  case Nil
  then show ?case by simp
next
  case (Cons x xs)
  show ?case
  proof (cases "x = a")
    case True
    then show ?thesis by (cases "xs = []") (simp_all add: rotate_last_sum)
  next
    case False
    with Cons show ?thesis by auto
  qed
qed


lemma sum_list_map_upd_fresh:
  "a \<notin> set xs \<Longrightarrow> sum_list (map (f(a := v)) xs) = sum_list (map f xs)"
  by (induction xs) auto

lemma sum_list_map_upd_member:
  "distinct xs \<Longrightarrow> a \<in> set xs \<Longrightarrow>
   sum_list (map (f(a := v)) xs) + f a = sum_list (map f xs) + (v :: nat)"
  by (induction xs) (auto simp: sum_list_map_upd_fresh)

lemma member_le_sum_list: "a \<in> set xs \<Longrightarrow> f a \<le> sum_list (map (f :: 'a \<Rightarrow> nat) xs)"
  by (induction xs) auto

lemma internal_addPCVDeposit_inv:
  assumes "internal_addPCVDeposit s a w = Inr s'" "registry_inv s"
  shows "registry_inv s'"
proof -
  from assms(1) have fresh: "a \<notin> set (pcvDepositAddresses s)"
    by (auto simp: internal_addPCVDeposit_def EnumerableSet_contains_def split: if_splits)
  with assms(1) have s': "s' = s\<lparr>pcvDepositAddresses := pcvDepositAddresses s @ [a],
        pcvDepositWeights := (pcvDepositWeights s)(a := w), totalWeight := totalWeight s + w\<rparr>"
    by (auto simp: internal_addPCVDeposit_def EnumerableSet_contains_def EnumerableSet_add_def
          checked_add_def split: if_splits)
  show ?thesis
    using assms(2) fresh unfolding s'
    by (simp add: registry_inv_def weightSum_def sum_list_map_upd_fresh)
qed

lemma add_initial_inv:
  "add_initial s zs = Inr s' \<Longrightarrow> registry_inv s \<Longrightarrow> registry_inv s'"
proof (induction zs arbitrary: s)
  case Nil
  then show ?case by simp
next
  case (Cons z zs)
  obtain a w where z: "z = (a, w)" by (cases z)
  from Cons.prems show ?case
    unfolding z by (auto simp: andThen_eq_Inr dest: internal_addPCVDeposit_inv Cons.IH)
qed

lemma constructor_inv:
  assumes "constructor ram tok addrs ws bw this ledger = Inr s"
  shows "registry_inv s"
proof -
  let ?s0 = "\<lparr>pcvDepositAddresses = [], pcvDepositWeights = (\<lambda>_. 0),
           bufferWeight = bw, totalWeight = bw,
           rewardsAssetManager = ram, token = tok,
           thisAddress = this, paused = False, tokenBalances = ledger, calls = []\<rparr>"
  from assms have "add_initial ?s0 (zip addrs ws) = Inr s"
    by (simp add: constructor_def split: if_splits)
  moreover have "registry_inv ?s0"
    by (simp add: registry_inv_def weightSum_def)
  ultimately show ?thesis by (rule add_initial_inv)
qed


lemma weight_delta:
  "andThen (toInt256 new) (\<lambda>a.
   andThen (toInt256 old) (\<lambda>b.
   andThen (int256_sub a b) (\<lambda>difference.
   andThen (toInt256 tw) (\<lambda>t.
   andThen (int256_add t difference) (\<lambda>r.
   andThen (toUint256 r) (\<lambda>newTotalWeight. f newTotalWeight)))))) = Inr s' \<Longrightarrow>
   old \<le> tw \<Longrightarrow> f (tw - old + new) = Inr s'"
proof -
  assume ok: "andThen (toInt256 new) (\<lambda>a.
   andThen (toInt256 old) (\<lambda>b.
   andThen (int256_sub a b) (\<lambda>difference.
   andThen (toInt256 tw) (\<lambda>t.
   andThen (int256_add t difference) (\<lambda>r.
   andThen (toUint256 r) (\<lambda>newTotalWeight. f newTotalWeight)))))) = Inr s'"
    and le: "old \<le> tw"
  from le have n: "nat (int tw + (int new - int old)) = tw - old + new" by simp
  from ok show ?thesis
    by (auto simp: andThen_eq_Inr toInt256_def int256_sub_def int256_add_def int256_def
          toUint256_def n split: if_splits)
qed

lemma setBufferWeight_inv:
  assumes "setBufferWeight s authorized w = Inr s'" "registry_inv s"
  shows "registry_inv s'"
proof -
  from assms(2) have le: "bufferWeight s \<le> totalWeight s" by (simp add: registry_inv_def)
  from assms(1) have
    "Inr (s\<lparr>bufferWeight := w, totalWeight := totalWeight s - bufferWeight s + w\<rparr>) = Inr s'"
    by (auto simp: setBufferWeight_def split: if_splits dest: weight_delta [OF _ le])
  then have "s' = s\<lparr>bufferWeight := w, totalWeight := totalWeight s - bufferWeight s + w\<rparr>"
    by simp
  with assms(2) show ?thesis by (simp add: registry_inv_def weightSum_def)
qed

lemma setPCVDepositWeight_inv:
  assumes "setPCVDepositWeight s authorized a w = Inr s'" "registry_inv s"
  shows "registry_inv s'"
proof -
  from assms(1) have mem: "a \<in> set (pcvDepositAddresses s)"
    by (auto simp: setPCVDepositWeight_def EnumerableSet_contains_def split: if_splits)
  from assms(2) have d: "distinct (pcvDepositAddresses s)" by (simp add: registry_inv_def)
  have "pcvDepositWeights s a \<le> weightSum s"
    unfolding weightSum_def using mem by (rule member_le_sum_list)
  with assms(2) have le: "pcvDepositWeights s a \<le> totalWeight s" by (simp add: registry_inv_def)
  from assms(1) mem have
    "Inr (s\<lparr>pcvDepositWeights := (pcvDepositWeights s)(a := w),
            totalWeight := totalWeight s - pcvDepositWeights s a + w\<rparr>) = Inr s'"
    by (auto simp: setPCVDepositWeight_def EnumerableSet_contains_def Let_def
          split: if_splits dest: weight_delta [OF _ le])
  then have s': "s' = s\<lparr>pcvDepositWeights := (pcvDepositWeights s)(a := w),
            totalWeight := totalWeight s - pcvDepositWeights s a + w\<rparr>"
    by simp
  show ?thesis
    using assms(2) le sum_list_map_upd_member [OF d mem, of "pcvDepositWeights s" w]
    unfolding s' by (simp add: registry_inv_def weightSum_def)
qed

lemma internal_removePCVDeposit_inv:
  assumes "internal_removePCVDeposit s a = Inr s'" "registry_inv s"
  shows "registry_inv s'"
proof -
  from assms(1) have mem: "a \<in> set (pcvDepositAddresses s)"
    by (auto simp: internal_removePCVDeposit_def EnumerableSet_contains_def split: if_splits)
  from assms(2) have d: "distinct (pcvDepositAddresses s)"
    and tw: "totalWeight s = bufferWeight s + weightSum s" by (simp_all add: registry_inv_def)
  note rm = EnumerableSet_remove_sum [OF mem]
  show ?thesis
  proof (cases "pcvDepositWeights s a = 0 \<and> tokenBalances s a = 0")
    case True
    with assms(1) mem have
      s': "s' = s\<lparr>pcvDepositAddresses := EnumerableSet_remove (pcvDepositAddresses s) a\<rparr>"
      by (simp add: internal_removePCVDeposit_def EnumerableSet_contains_def IPCVDeposit_balance_def)
    show ?thesis
      using d tw True rm [of "pcvDepositWeights s"]
      unfolding s' by (simp add: registry_inv_def weightSum_def EnumerableSet_remove_distinct)
  next
    case False
    let ?s2 = "s\<lparr>totalWeight := totalWeight s - pcvDepositWeights s a,
                   pcvDepositWeights := (pcvDepositWeights s)(a := 0)\<rparr>"
    from assms(1) mem False obtain s3 where
      r: "internal_rebalanceSingle ?s2 a = Inr s3" and
      s': "s' = s3\<lparr>pcvDepositAddresses := EnumerableSet_remove (pcvDepositAddresses s3) a\<rparr>"
      by (auto simp: internal_removePCVDeposit_def EnumerableSet_contains_def
            IPCVDeposit_balance_def checked_sub_def andThen_eq_Inr Let_def split: if_splits)
    from r have same: "same_registry ?s2 s3" by (rule internal_rebalanceSingle_same_registry)
    have "pcvDepositWeights s a \<le> weightSum s"
      unfolding weightSum_def using mem by (rule member_le_sum_list)
    then show ?thesis
      using d tw same sum_list_map_upd_member [OF d mem, of "pcvDepositWeights s" 0]
        rm [of "(pcvDepositWeights s)(a := 0)"]
      unfolding s' by (simp add: registry_inv_def weightSum_def same_registry_def
          EnumerableSet_remove_distinct)
  qed
qed

lemma apply_operation_inv:
  assumes "apply_operation s op = Inr s'" "registry_inv s"
  shows "registry_inv s'"
proof (cases op)
  case (AddPCVDeposit authorized a w)
  with assms show ?thesis
    by (auto simp: addPCVDeposit_def split: if_splits dest: internal_addPCVDeposit_inv)
next
  case (RemovePCVDeposit authorized a)
  with assms show ?thesis
    by (auto simp: removePCVDeposit_def split: if_splits dest: internal_removePCVDeposit_inv)
next
  case (SetPCVDepositWeight authorized a w)
  with assms show ?thesis by (auto dest: setPCVDepositWeight_inv)
next
  case (SetBufferWeight authorized w)
  with assms show ?thesis by (auto dest: setBufferWeight_inv)
next
  case Rebalance
  with assms show ?thesis
    by (auto dest!: rebalance_same_registry intro: registry_inv_same_registry)
next
  case (RebalanceSingle a)
  with assms show ?thesis
    by (auto simp: rebalanceSingle_def split: if_splits
          dest!: internal_rebalanceSingle_same_registry intro: registry_inv_same_registry)
next
  case Deposit
  with assms show ?thesis by (auto dest: deposit_Inr_unchanged)
next
  case (Withdraw authorized to amount)
  with assms show ?thesis
    by (auto dest!: withdraw_same_registry intro: registry_inv_same_registry)
next
  case (Environment ledger p)
  with assms show ?thesis by (auto simp: registry_inv_def weightSum_def)
qed

lemma run_inv: "registry_inv s \<Longrightarrow> registry_inv (run s ops)"
proof (induction ops arbitrary: s)
  case Nil
  then show ?case by simp
next
  case (Cons op ops)
  show ?case
  proof (cases "apply_operation s op")
    case (Inl e)
    with Cons show ?thesis by simp
  next
    case (Inr s')
    with Cons.prems have "registry_inv s'" by (blast intro: apply_operation_inv)
    with Inr Cons.IH show ?thesis by simp
  qed
qed

lemma registry_inv_reached:
  "constructor ram tok addrs ws bw this ledger = Inr s \<Longrightarrow> registry_inv (run s ops)"
  by (blast intro: constructor_inv run_inv)

text \<open>
  Claim C1: the aggregator is constructed and then receives any sequence of
  transactions (additions and removals of deposits, changes of a deposit's weight or
  of the buffer weight, rebalances, deposits, withdrawals, each of which may revert)
  interleaved with token movements by other parties. After every one of them the
  stored total weight is the buffer weight plus the sum of the weights of the
  registered deposits.
\<close>

theorem totalWeight_is_buffer_plus_weights:
  assumes "constructor ram tok addrs ws bw this ledger = Inr s"
  shows "totalWeight (run s ops) = bufferWeight (run s ops) + weightSum (run s ops)"
proof -
  from assms have "registry_inv s" by (rule constructor_inv)
  then have "registry_inv (run s ops)" by (rule run_inv)
  then show ?thesis by (simp add: registry_inv_def)
qed


lemmas operation_defs =
  addPCVDeposit_def internal_addPCVDeposit_def removePCVDeposit_def internal_removePCVDeposit_def
  setPCVDepositWeight_def setBufferWeight_def EnumerableSet_contains_def EnumerableSet_add_def
  checked_add_def checked_sub_def toInt256_def toUint256_def int256_add_def int256_sub_def
  int256_mul_def int256_def IPCVDeposit_balance_def IPCVDeposit_withdraw_def
  internal_rebalanceSingle_def amountFromTarget_eq moved_def

theorem totalWeight_is_buffer_plus_weights_witness:
  "\<exists>s. constructor 7 8 [1, 2, 3] [1, 1, 2] 0 9 (\<lambda>a. if a = 1 then 10 else if a = 9 then 400 else 0) = Inr s \<and>
       pcvDepositAddresses
         (run s [SetBufferWeight True 4, SetPCVDepositWeight True 2 5, AddPCVDeposit True 4 3,
                 RemovePCVDeposit True 1]) = [4, 2, 3] \<and>
       bufferWeight
         (run s [SetBufferWeight True 4, SetPCVDepositWeight True 2 5, AddPCVDeposit True 4 3,
                 RemovePCVDeposit True 1]) = 4 \<and>
       totalWeight
         (run s [SetBufferWeight True 4, SetPCVDepositWeight True 2 5, AddPCVDeposit True 4 3,
                 RemovePCVDeposit True 1]) = 14"
proof -
  let ?ledger = "\<lambda>a::nat. if a = 1 then 10 else if a = 9 then 400 else (0::nat)"
  let ?ops = "[SetBufferWeight True 4, SetPCVDepositWeight True 2 5, AddPCVDeposit True 4 3,
                 RemovePCVDeposit True 1]"
  define s where "s = \<lparr>pcvDepositAddresses = [1, 2, 3],
      pcvDepositWeights = (\<lambda>_. 0)(1 := 1, 2 := 1, 3 := 2),
      bufferWeight = 0, totalWeight = 4, rewardsAssetManager = 7, token = 8,
      thisAddress = 9, paused = False, tokenBalances = ?ledger, calls = []\<rparr>"
  have c: "constructor 7 8 [1, 2, 3] [1, 1, 2] 0 9 ?ledger = Inr s"
    by (simp add: constructor_def operation_defs s_def)
  have a: "pcvDepositAddresses (run s ?ops) = [4, 2, 3]"
    unfolding s_def
    by (simp add: operation_defs totalBalance_def sumOfDepositBalances_def balance_def
          idealBalance_def distance_def)
  have b: "bufferWeight (run s ?ops) = 4"
    unfolding s_def
    by (simp add: operation_defs totalBalance_def sumOfDepositBalances_def balance_def
          idealBalance_def distance_def)
  have w: "pcvDepositWeights (run s ?ops) = (\<lambda>_. 0)(1 := 0, 2 := 5, 3 := 2, 4 := 3)"
    unfolding s_def
    by (simp add: operation_defs totalBalance_def sumOfDepositBalances_def balance_def
          idealBalance_def distance_def fun_eq_iff)
  from totalWeight_is_buffer_plus_weights [OF c, of ?ops] a b w c show ?thesis
    by (simp add: weightSum_def)
qed

subsection \<open>Removing a deposit\<close>








subsection \<open>The two phases of a full rebalance\<close>

lemma withdraw_calls_Cons:
  "withdraw_calls ((a, dist) # zs) =
     (if dist < 0 then SubWithdraw a (nat (- dist)) # withdraw_calls zs else withdraw_calls zs)"
  by (simp add: withdraw_calls_def)

lemma deposit_calls_Cons:
  "deposit_calls ((a, dist) # zs) =
     (if dist > 0 then TokenTransfer a (nat dist) # SubDeposit a # deposit_calls zs
      else deposit_calls zs)"
  by (simp add: deposit_calls_def)

lemma withdraw_calls_Nil [simp]: "withdraw_calls [] = []"
  by (simp add: withdraw_calls_def)

lemma deposit_calls_Nil [simp]: "deposit_calls [] = []"
  by (simp add: deposit_calls_def)

text \<open>What the withdrawal phase does when it completes.\<close>

lemma rebalance_withdraws_effect:
  assumes "rebalance_withdraws s zs = Inr s1" "distinct (map fst zs)"
    and "thisAddress s \<notin> fst ` set zs"
  shows "same_registry s s1 \<and>
         calls s1 = calls s @ withdraw_calls zs \<and>
         (\<forall>(a, dist)\<in>set zs. nat (- dist) \<le> tokenBalances s a \<and>
                            tokenBalances s1 a = tokenBalances s a - nat (- dist)) \<and>
         tokenBalances s1 (thisAddress s) =
           tokenBalances s (thisAddress s) + (\<Sum>(a, dist)\<leftarrow>zs. nat (- dist)) \<and>
         (\<forall>x. x \<notin> fst ` set zs \<longrightarrow> x \<noteq> thisAddress s \<longrightarrow> tokenBalances s1 x = tokenBalances s x)"
  using assms
proof (induction zs arbitrary: s)
  case Nil
  then show ?case by simp
next
  case (Cons z zs)
  obtain a dist where z: "z = (a, dist)" by (cases z)
  from Cons.prems z have fresh: "a \<notin> fst ` set zs" and at: "a \<noteq> thisAddress s"
    and d: "distinct (map fst zs)" and t: "thisAddress s \<notin> fst ` set zs"
    by auto
  show ?case
  proof (cases "dist < 0")
    case False
    with Cons.prems z have r: "rebalance_withdraws s zs = Inr s1" by simp
    from Cons.IH [OF r d t] False fresh at show ?thesis
      unfolding z by (auto simp: withdraw_calls_Cons)
  next
    case True
    with Cons.prems z obtain m n sm where
      m: "int256_mul (- 1) dist = Inr m" and n: "toUint256 m = Inr n" and
      w: "IPCVDeposit_withdraw s a (thisAddress s) n = Inr sm" and
      r: "rebalance_withdraws sm zs = Inr s1"
      by (auto simp: andThen_eq_Inr)
    from m n have n_eq: "n = nat (- dist)"
      by (auto simp: int256_mul_def int256_def toUint256_def split: if_splits)
    from w have le: "n \<le> tokenBalances s a" and
      sm: "sm = s\<lparr>tokenBalances := moved (tokenBalances s) a (thisAddress s) n,
                    calls := calls s @ [SubWithdraw a n]\<rparr>"
      by (auto simp: IPCVDeposit_withdraw_def split: if_splits)
    have tm: "thisAddress sm = thisAddress s" by (simp add: sm)
    from Cons.IH [OF r d] t tm have ih:
      "same_registry sm s1"
      "calls s1 = calls sm @ withdraw_calls zs"
      "\<forall>(a, dist)\<in>set zs. nat (- dist) \<le> tokenBalances sm a \<and>
                            tokenBalances s1 a = tokenBalances sm a - nat (- dist)"
      "tokenBalances s1 (thisAddress s) =
           tokenBalances sm (thisAddress s) + (\<Sum>(a, dist)\<leftarrow>zs. nat (- dist))"
      "\<forall>x. x \<notin> fst ` set zs \<longrightarrow> x \<noteq> thisAddress s \<longrightarrow> tokenBalances s1 x = tokenBalances sm x"
      by simp_all
    have other: "\<And>x. x \<noteq> a \<Longrightarrow> x \<noteq> thisAddress s \<Longrightarrow> tokenBalances sm x = tokenBalances s x"
      by (simp add: sm moved_def)
    have at_a: "tokenBalances sm a = tokenBalances s a - n"
      using at by (simp add: sm moved_def)
    have at_t: "tokenBalances sm (thisAddress s) = tokenBalances s (thisAddress s) + n"
      using at by (simp add: sm moved_def)
    have "same_registry s s1"
      using ih(1) by (simp add: same_registry_def sm)
    moreover have "calls s1 = calls s @ withdraw_calls (z # zs)"
      using ih(2) True by (simp add: z withdraw_calls_Cons sm n_eq)
    moreover have "\<forall>(a, dist)\<in>set (z # zs). nat (- dist) \<le> tokenBalances s a \<and>
                            tokenBalances s1 a = tokenBalances s a - nat (- dist)"
    proof -
      have "nat (- dist) \<le> tokenBalances s a \<and> tokenBalances s1 a = tokenBalances s a - nat (- dist)"
        using ih(4) ih(5) fresh at at_a le n_eq by simp
      moreover have "\<forall>(a', dist')\<in>set zs. nat (- dist') \<le> tokenBalances s a' \<and>
                            tokenBalances s1 a' = tokenBalances s a' - nat (- dist')"
      proof (clarify)
        fix a' dist' assume mem: "(a', dist') \<in> set zs"
        then have "a' \<in> fst ` set zs" by force
        with fresh t have "a' \<noteq> a" "a' \<noteq> thisAddress s" by blast+
        then have "tokenBalances sm a' = tokenBalances s a'" by (rule other)
        with ih(3) mem show "nat (- dist') \<le> tokenBalances s a' \<and>
                            tokenBalances s1 a' = tokenBalances s a' - nat (- dist')" by auto
      qed
      ultimately show ?thesis by (simp add: z)
    qed
    moreover have "tokenBalances s1 (thisAddress s) =
           tokenBalances s (thisAddress s) + (\<Sum>(a, dist)\<leftarrow>z # zs. nat (- dist))"
      using ih(4) at_t n_eq by (simp add: z)
    moreover have "\<forall>x. x \<notin> fst ` set (z # zs) \<longrightarrow> x \<noteq> thisAddress s \<longrightarrow>
        tokenBalances s1 x = tokenBalances s x"
      using ih(5) other by (simp add: z)
    ultimately show ?thesis by blast
  qed
qed


text \<open>What the deposit phase does when it completes.\<close>

lemma rebalance_deposits_effect:
  assumes "rebalance_deposits s zs = Inr s2" "distinct (map fst zs)"
    and "thisAddress s \<notin> fst ` set zs"
  shows "same_registry s s2 \<and>
         calls s2 = calls s @ deposit_calls zs \<and>
         (\<Sum>(a, dist)\<leftarrow>zs. nat dist) \<le> tokenBalances s (thisAddress s) \<and>
         (\<forall>(a, dist)\<in>set zs. tokenBalances s2 a = tokenBalances s a + nat dist) \<and>
         tokenBalances s2 (thisAddress s) =
           tokenBalances s (thisAddress s) - (\<Sum>(a, dist)\<leftarrow>zs. nat dist) \<and>
         (\<forall>x. x \<notin> fst ` set zs \<longrightarrow> x \<noteq> thisAddress s \<longrightarrow> tokenBalances s2 x = tokenBalances s x)"
  using assms
proof (induction zs arbitrary: s)
  case Nil
  then show ?case by simp
next
  case (Cons z zs)
  obtain a dist where z: "z = (a, dist)" by (cases z)
  from Cons.prems z have fresh: "a \<notin> fst ` set zs" and at: "a \<noteq> thisAddress s"
    and d: "distinct (map fst zs)" and t: "thisAddress s \<notin> fst ` set zs"
    by auto
  show ?case
  proof (cases "dist > 0")
    case False
    with Cons.prems z have r: "rebalance_deposits s zs = Inr s2" by simp
    from Cons.IH [OF r d t] False fresh at show ?thesis
      unfolding z by (auto simp: deposit_calls_Cons)
  next
    case True
    with Cons.prems z obtain n s1 where
      n: "toUint256 dist = Inr n" and
      w: "safeTransfer s a n = Inr s1" and
      r: "rebalance_deposits (IPCVDeposit_deposit s1 a) zs = Inr s2"
      by (auto simp: andThen_eq_Inr)
    from n have n_eq: "n = nat dist"
      by (auto simp: toUint256_def split: if_splits)
    define sm where "sm = IPCVDeposit_deposit s1 a"
    from w have le: "n \<le> tokenBalances s (thisAddress s)" and
      sm: "sm = s\<lparr>tokenBalances := moved (tokenBalances s) (thisAddress s) a n,
                    calls := calls s @ [TokenTransfer a n, SubDeposit a]\<rparr>"
      by (auto simp: safeTransfer_def IPCVDeposit_deposit_def sm_def split: if_splits)
    have tm: "thisAddress sm = thisAddress s" by (simp add: sm)
    from r have r': "rebalance_deposits sm zs = Inr s2" by (simp add: sm_def)
    from Cons.IH [OF r' d] t tm have ih:
      "same_registry sm s2"
      "calls s2 = calls sm @ deposit_calls zs"
      "(\<Sum>(a, dist)\<leftarrow>zs. nat dist) \<le> tokenBalances sm (thisAddress s)"
      "\<forall>(a, dist)\<in>set zs. tokenBalances s2 a = tokenBalances sm a + nat dist"
      "tokenBalances s2 (thisAddress s) =
           tokenBalances sm (thisAddress s) - (\<Sum>(a, dist)\<leftarrow>zs. nat dist)"
      "\<forall>x. x \<notin> fst ` set zs \<longrightarrow> x \<noteq> thisAddress s \<longrightarrow> tokenBalances s2 x = tokenBalances sm x"
      by simp_all
    have other: "\<And>x. x \<noteq> a \<Longrightarrow> x \<noteq> thisAddress s \<Longrightarrow> tokenBalances sm x = tokenBalances s x"
      by (simp add: sm moved_def)
    have at_a: "tokenBalances sm a = tokenBalances s a + n"
      using at by (simp add: sm moved_def)
    have at_t: "tokenBalances sm (thisAddress s) = tokenBalances s (thisAddress s) - n"
      using at by (simp add: sm moved_def)
    have "same_registry s s2"
      using ih(1) by (simp add: same_registry_def sm)
    moreover have "calls s2 = calls s @ deposit_calls (z # zs)"
      using ih(2) True by (simp add: z deposit_calls_Cons sm n_eq)
    moreover have "(\<Sum>(a, dist)\<leftarrow>z # zs. nat dist) \<le> tokenBalances s (thisAddress s)"
      using ih(3) at_t le n_eq by (simp add: z)
    moreover have "\<forall>(a, dist)\<in>set (z # zs). tokenBalances s2 a = tokenBalances s a + nat dist"
    proof -
      have "tokenBalances s2 a = tokenBalances s a + nat dist"
        using ih(6) fresh at at_a n_eq by simp
      moreover have "\<forall>(a', dist')\<in>set zs. tokenBalances s2 a' = tokenBalances s a' + nat dist'"
      proof (clarify)
        fix a' dist' assume mem: "(a', dist') \<in> set zs"
        then have "a' \<in> fst ` set zs" by force
        with fresh t have "a' \<noteq> a" "a' \<noteq> thisAddress s" by blast+
        then have "tokenBalances sm a' = tokenBalances s a'" by (rule other)
        with ih(4) mem show "tokenBalances s2 a' = tokenBalances s a' + nat dist'" by auto
      qed
      ultimately show ?thesis by (simp add: z)
    qed
    moreover have "tokenBalances s2 (thisAddress s) =
           tokenBalances s (thisAddress s) - (\<Sum>(a, dist)\<leftarrow>z # zs. nat dist)"
      using ih(5) at_t n_eq by (simp add: z)
    moreover have "\<forall>x. x \<notin> fst ` set (z # zs) \<longrightarrow> x \<noteq> thisAddress s \<longrightarrow>
        tokenBalances s2 x = tokenBalances s x"
      using ih(6) other by (simp add: z)
    ultimately show ?thesis by blast
  qed
qed

text \<open>When the phases complete.\<close>

lemma rebalance_withdraws_succeeds:
  assumes "distinct (map fst zs)" "thisAddress s \<notin> fst ` set zs"
    and "\<forall>(a, dist)\<in>set zs. - (2 ^ 255) < dist \<and> nat (- dist) \<le> tokenBalances s a"
  shows "\<exists>s1. rebalance_withdraws s zs = Inr s1"
  using assms
proof (induction zs arbitrary: s)
  case Nil
  then show ?case by simp
next
  case (Cons z zs)
  obtain a dist where z: "z = (a, dist)" by (cases z)
  from Cons.prems z have fresh: "a \<notin> fst ` set zs" and at: "a \<noteq> thisAddress s"
    and d: "distinct (map fst zs)" and t: "thisAddress s \<notin> fst ` set zs"
    and lo: "- (2 ^ 255) < dist" and le: "nat (- dist) \<le> tokenBalances s a"
    and rest: "\<forall>(a, dist)\<in>set zs. - (2 ^ 255) < dist \<and> nat (- dist) \<le> tokenBalances s a"
    by auto
  show ?case
  proof (cases "dist < 0")
    case False
    with Cons.IH [OF d t rest] show ?thesis by (simp add: z)
  next
    case True
    define sm where "sm = s\<lparr>tokenBalances := moved (tokenBalances s) a (thisAddress s) (nat (- dist)),
                    calls := calls s @ [SubWithdraw a (nat (- dist))]\<rparr>"
    have tm: "thisAddress sm = thisAddress s" by (simp add: sm_def)
    have "\<forall>(a', dist')\<in>set zs. - (2 ^ 255) < dist' \<and> nat (- dist') \<le> tokenBalances sm a'"
    proof (clarify)
      fix a' dist' assume mem: "(a', dist') \<in> set zs"
      then have "a' \<in> fst ` set zs" by force
      with fresh t have "a' \<noteq> a" "a' \<noteq> thisAddress s" by blast+
      then have "tokenBalances sm a' = tokenBalances s a'" by (simp add: sm_def moved_def)
      with rest mem show "- (2 ^ 255) < dist' \<and> nat (- dist') \<le> tokenBalances sm a'" by auto
    qed
    with Cons.IH [of sm] d t tm obtain s1 where "rebalance_withdraws sm zs = Inr s1" by auto
    then show ?thesis
      using True lo le
      by (simp add: z int256_mul_def int256_def toUint256_def IPCVDeposit_withdraw_def sm_def)
  qed
qed

lemma rebalance_deposits_succeeds:
  assumes "distinct (map fst zs)" "thisAddress s \<notin> fst ` set zs"
    and "(\<Sum>(a, dist)\<leftarrow>zs. nat dist) \<le> tokenBalances s (thisAddress s)"
  shows "\<exists>s2. rebalance_deposits s zs = Inr s2"
  using assms
proof (induction zs arbitrary: s)
  case Nil
  then show ?case by simp
next
  case (Cons z zs)
  obtain a dist where z: "z = (a, dist)" by (cases z)
  from Cons.prems z have at: "a \<noteq> thisAddress s"
    and d: "distinct (map fst zs)" and t: "thisAddress s \<notin> fst ` set zs"
    and le: "nat dist + (\<Sum>(a, dist)\<leftarrow>zs. nat dist) \<le> tokenBalances s (thisAddress s)"
    by auto
  show ?case
  proof (cases "dist > 0")
    case False
    with Cons.IH [OF d t] le show ?thesis by (simp add: z)
  next
    case True
    define sm where "sm = s\<lparr>tokenBalances := moved (tokenBalances s) (thisAddress s) a (nat dist),
                    calls := calls s @ [TokenTransfer a (nat dist), SubDeposit a]\<rparr>"
    have tm: "thisAddress sm = thisAddress s" by (simp add: sm_def)
    have "tokenBalances sm (thisAddress s) = tokenBalances s (thisAddress s) - nat dist"
      using at by (simp add: sm_def moved_def)
    with le have "(\<Sum>(a, dist)\<leftarrow>zs. nat dist) \<le> tokenBalances sm (thisAddress sm)"
      by (simp add: tm)
    with Cons.IH [of sm] d t tm obtain s2 where "rebalance_deposits sm zs = Inr s2" by auto
    then show ?thesis
      using True le
      by (simp add: z toUint256_def safeTransfer_def IPCVDeposit_deposit_def sm_def)
  qed
qed


subsection \<open>The arithmetic of the targets\<close>

lemma div_add_le: "(a :: nat) div c + b div c \<le> (a + b) div c"
proof (cases "c = 0")
  case True
  then show ?thesis by simp
next
  case False
  have "a div c * c + b div c * c \<le> a + b"
    by (rule add_mono) simp_all
  then have "(a div c + b div c) * c \<le> a + b" by (simp add: add_mult_distrib)
  with False show ?thesis by (simp add: less_eq_div_iff_mult_less_eq)
qed

lemma sum_list_div_le:
  "(\<Sum>x\<leftarrow>xs. f x div (c :: nat)) \<le> (\<Sum>x\<leftarrow>xs. f x) div c"
proof (induction xs)
  case Nil
  then show ?case by simp
next
  case (Cons x xs)
  have "f x div c + (\<Sum>x\<leftarrow>xs. f x) div c \<le> (f x + (\<Sum>x\<leftarrow>xs. f x)) div c"
    by (rule div_add_le)
  with Cons show ?case by simp
qed

text \<open>The ideal balances of the deposits never add up to more than the total balance.\<close>

lemma idealBalance_sum_le:
  assumes "weightSum s \<le> totalWeight s"
  shows "(\<Sum>a\<leftarrow>pcvDepositAddresses s. idealBalance s a) \<le> totalBalance s"
proof (cases "totalWeight s = 0")
  case True
  then show ?thesis by (simp add: idealBalance_def)
next
  case False
  have "(\<Sum>a\<leftarrow>pcvDepositAddresses s. idealBalance s a)
      \<le> (\<Sum>a\<leftarrow>pcvDepositAddresses s. totalBalance s * pcvDepositWeights s a) div totalWeight s"
    unfolding idealBalance_def by (rule sum_list_div_le)
  also have "\<dots> = totalBalance s * weightSum s div totalWeight s"
    by (simp add: sum_list_const_mult weightSum_def)
  also have "\<dots> \<le> totalBalance s * totalWeight s div totalWeight s"
    using assms by (intro div_le_mono mult_le_mono2)
  also have "\<dots> = totalBalance s" using False by simp
  finally show ?thesis .
qed

text \<open>Shortfalls plus actual balances equal excesses plus ideal balances.\<close>

lemma distance_sums:
  "(\<Sum>a\<leftarrow>xs. nat (distance s a)) + (\<Sum>a\<leftarrow>xs. tokenBalances s a) =
   (\<Sum>a\<leftarrow>xs. nat (- distance s a)) + (\<Sum>a\<leftarrow>xs. idealBalance s a)"
  by (induction xs) (auto simp: distance_def)

lemma shortfalls_covered:
  assumes "weightSum s \<le> totalWeight s"
  shows "(\<Sum>a\<leftarrow>pcvDepositAddresses s. nat (distance s a))
           \<le> balance s + (\<Sum>a\<leftarrow>pcvDepositAddresses s. nat (- distance s a))"
proof -
  have "(\<Sum>a\<leftarrow>pcvDepositAddresses s. idealBalance s a) \<le> balance s + sumOfDepositBalances s"
    using idealBalance_sum_le [OF assms] by (simp add: totalBalance_def)
  with distance_sums [of s "pcvDepositAddresses s"] show ?thesis
    by (simp add: sumOfDepositBalances_def)
qed

subsection \<open>The call log of a rebalance is funded\<close>

lemma transfers_funded_withdraws:
  "transfers_funded idle (withdraw_calls zs @ cs) =
     transfers_funded (idle + (\<Sum>(a, dist)\<leftarrow>zs. nat (- dist))) cs"
proof (induction zs arbitrary: idle)
  case Nil
  then show ?case by simp
next
  case (Cons z zs)
  obtain a dist where z: "z = (a, dist)" by (cases z)
  show ?case
    unfolding z by (simp add: withdraw_calls_Cons Cons.IH add.assoc)
qed

lemma transfers_funded_deposits:
  "(\<Sum>(a, dist)\<leftarrow>zs. nat dist) \<le> idle \<Longrightarrow> transfers_funded idle (deposit_calls zs)"
proof (induction zs arbitrary: idle)
  case Nil
  then show ?case by simp
next
  case (Cons z zs)
  obtain a dist where z: "z = (a, dist)" by (cases z)
  from Cons.prems show ?case
    unfolding z by (auto simp: deposit_calls_Cons intro!: Cons.IH)
qed


subsection \<open>The full rebalance\<close>

lemma internal_rebalance_eq:
  assumes "getAllAmountsFromTargets s = Inr ds"
  shows "internal_rebalance s =
     andThen (rebalance_withdraws s (zip (pcvDepositAddresses s) ds)) (\<lambda>s1.
     rebalance_deposits s1 (zip (pcvDepositAddresses s1) ds))"
proof -
  from assms have t: "totalBalance s < 2 ^ 256" by (simp add: getAllAmountsFromTargets_Inr_iff)
  then have u: "sumOfDepositBalances s < 2 ^ 256" by (simp add: totalBalance_def)
  have c: "checked_add (sumOfDepositBalances s) (balance s) = Inr (totalBalance s)"
    using t by (simp add: checked_add_def totalBalance_def add.commute)
  show ?thesis
    using u by (simp add: internal_rebalance_def getUnderlyingBalancesAndSum_eq c assms)
qed

text \<open>
  Claim C4: in a full rebalance of an unpaused aggregator whose registry is
  consistent and does not contain the aggregator itself, and whose distances can be
  computed, the withdrawal loop runs first and makes only withdrawals from
  over-funded deposits; when it has finished, the idle balance of the aggregator
  covers the sum of all the transfers of the deposit loop; the deposit loop then
  completes, so the rebalance succeeds, and in the log of its calls no transfer
  exceeds the idle balance at the moment it is made.
\<close>

theorem rebalance_withdraws_before_deposits:
  assumes "\<not> paused s" "registry_inv s" "thisAddress s \<notin> set (pcvDepositAddresses s)"
    and "getAllAmountsFromTargets s = Inr ds"
  shows "\<exists>s1 s2.
           rebalance_withdraws s (zip (pcvDepositAddresses s) ds) = Inr s1 \<and>
           calls s1 = calls s @ withdraw_calls (zip (pcvDepositAddresses s) ds) \<and>
           (\<Sum>(a, dist)\<leftarrow>zip (pcvDepositAddresses s) ds. nat dist) \<le> balance s1 \<and>
           rebalance_deposits s1 (zip (pcvDepositAddresses s) ds) = Inr s2 \<and>
           calls s2 = calls s1 @ deposit_calls (zip (pcvDepositAddresses s) ds) \<and>
           rebalance s = Inr s2 \<and>
           transfers_funded (balance s)
             (withdraw_calls (zip (pcvDepositAddresses s) ds) @
              deposit_calls (zip (pcvDepositAddresses s) ds))"
proof -
  let ?xs = "pcvDepositAddresses s"
  let ?zs = "map (\<lambda>a. (a, distance s a)) ?xs"
  from assms(4) have range: "\<forall>a\<in>set ?xs. distance_in_range s a"
    and ds: "ds = map (distance s) ?xs"
    by (simp_all add: getAllAmountsFromTargets_Inr_iff)
  have zs: "zip ?xs ds = ?zs" by (simp add: ds zip_with_balances)
  from assms(2) have dist: "distinct ?xs" and w: "weightSum s \<le> totalWeight s"
    by (simp_all add: registry_inv_def)
  have fst_zs: "map fst ?zs = ?xs" by (simp add: comp_def)
  have d: "distinct (map fst ?zs)" unfolding fst_zs by (rule dist)
  have t: "thisAddress s \<notin> fst ` set ?zs" using assms(3) by (auto simp: image_iff)
  have "\<forall>(a, dist)\<in>set ?zs. - (2 ^ 255) < dist \<and> nat (- dist) \<le> tokenBalances s a"
    using range distance_bounds by (auto simp: distance_def)
  with d t obtain s1 where p1: "rebalance_withdraws s ?zs = Inr s1"
    using rebalance_withdraws_succeeds [of ?zs s] by blast
  note e1 = rebalance_withdraws_effect [OF p1 d t]
  from e1 have same1: "same_registry s s1" and c1: "calls s1 = calls s @ withdraw_calls ?zs"
    and b1: "tokenBalances s1 (thisAddress s) =
               tokenBalances s (thisAddress s) + (\<Sum>(a, dist)\<leftarrow>?zs. nat (- dist))"
    by blast+
  from same1 have t1: "thisAddress s1 = thisAddress s" and x1: "pcvDepositAddresses s1 = ?xs"
    by (simp_all add: same_registry_def)
  have cover: "(\<Sum>(a, dist)\<leftarrow>?zs. nat dist) \<le> balance s1"
    using shortfalls_covered [OF w] b1
    by (simp add: balance_def t1 comp_def)
  then have "(\<Sum>(a, dist)\<leftarrow>?zs. nat dist) \<le> tokenBalances s1 (thisAddress s1)"
    by (simp add: balance_def)
  with d t t1 obtain s2 where p2: "rebalance_deposits s1 ?zs = Inr s2"
    using rebalance_deposits_succeeds [of ?zs s1] by auto
  from t t1 have t': "thisAddress s1 \<notin> fst ` set ?zs" by simp
  from rebalance_deposits_effect [OF p2 d t']
  have c2: "calls s2 = calls s1 @ deposit_calls ?zs" by blast
  have r: "rebalance s = Inr s2"
    using assms(1) p1 p2 by (simp add: rebalance_def internal_rebalance_eq [OF assms(4)] zs x1)
  have f: "transfers_funded (balance s) (withdraw_calls ?zs @ deposit_calls ?zs)"
    using cover b1 by (simp add: transfers_funded_withdraws transfers_funded_deposits balance_def t1)
  from p1 c1 cover p2 c2 r f show ?thesis unfolding zs by blast
qed


theorem rebalance_withdraws_before_deposits_witness:
  "getAllAmountsFromTargets (example_state 400 0 0 0) = Inr [- 300, 100, 200] \<and>
   rebalance (example_state 400 0 0 0) =
     Inr ((example_state 100 100 200 0)
            \<lparr>calls := [SubWithdraw 1 300, TokenTransfer 2 100, SubDeposit 2,
                       TokenTransfer 3 200, SubDeposit 3]\<rparr>) \<and>
   transfers_funded 0 [SubWithdraw 1 300, TokenTransfer 2 100, SubDeposit 2,
                       TokenTransfer 3 200, SubDeposit 3]"
proof -
  let ?s = "example_state 400 0 0 0"
  have g: "getAllAmountsFromTargets ?s = Inr [- 300, 100, 200]"
    by (simp add: getAllAmountsFromTargets_Inr_iff example_simps)
  have i: "registry_inv ?s"
    by (simp add: registry_inv_def weightSum_def example_state_def)
  have p: "\<not> paused ?s" and t: "thisAddress ?s \<notin> set (pcvDepositAddresses ?s)"
    by (simp_all add: example_state_def)
  have z: "zip (pcvDepositAddresses ?s) [- 300, 100, 200] = [(1, - 300), (2, 100), (3, 200)]"
    by (simp add: example_state_def)
  from rebalance_withdraws_before_deposits [OF p i t g]
  obtain s2 where
    r: "rebalance ?s = Inr s2" and
    f: "transfers_funded (balance ?s)
          (withdraw_calls [(1, - 300), (2, 100), (3, 200)] @
           deposit_calls [(1, - 300), (2, 100), (3, 200)])"
    unfolding z by blast
  have r': "rebalance ?s = Inr ((example_state 100 100 200 0)
            \<lparr>calls := [SubWithdraw 1 300, TokenTransfer 2 100, SubDeposit 2,
                       TokenTransfer 3 200, SubDeposit 3]\<rparr>)"
    by (simp add: rebalance_def internal_rebalance_eq [OF g])
       (simp add: example_state_def int256_mul_def int256_def toUint256_def
          IPCVDeposit_withdraw_def safeTransfer_def IPCVDeposit_deposit_def moved_def fun_eq_iff)
  from g r r' f show ?thesis
    by (simp add: withdraw_calls_Cons deposit_calls_Cons example_simps)
qed

text \<open>A rebalance in which every distance is zero makes no call.\<close>

lemma rebalance_phases_noop:
  "\<forall>(a, dist)\<in>set zs. dist = 0 \<Longrightarrow>
   rebalance_withdraws s zs = Inr s \<and> rebalance_deposits s zs = Inr s"
  by (induction zs) auto

lemma rebalance_balanced:
  assumes "\<not> paused s" "totalBalance s < 2 ^ 256"
    and "\<forall>a\<in>set (pcvDepositAddresses s). distance_in_range s a \<and> distance s a = 0"
  shows "rebalance s = Inr s"
proof -
  have g: "getAllAmountsFromTargets s = Inr (map (distance s) (pcvDepositAddresses s))"
    using assms by (simp add: getAllAmountsFromTargets_Inr_iff)
  have "\<forall>(a, dist)\<in>set (zip (pcvDepositAddresses s) (map (distance s) (pcvDepositAddresses s))). dist = 0"
    using assms(3) by (auto simp: zip_with_balances)
  from rebalance_phases_noop [OF this] show ?thesis
    using assms(1) by (simp add: rebalance_def internal_rebalance_eq [OF g])
qed

lemma rebalance_reaches_targets:
  assumes "\<not> paused s" "distinct (pcvDepositAddresses s)"
    and "thisAddress s \<notin> set (pcvDepositAddresses s)" "rebalance s = Inr s'"
  shows "same_registry s s' \<and> totalBalance s' = totalBalance s \<and> totalBalance s < 2 ^ 256 \<and>
         (\<forall>a\<in>set (pcvDepositAddresses s). distance_in_range s a \<and>
              tokenBalances s' a = idealBalance s a)"
proof -
  let ?xs = "pcvDepositAddresses s"
  let ?zs = "map (\<lambda>a. (a, distance s a)) ?xs"
  from assms(1,4) obtain ds where g: "getAllAmountsFromTargets s = Inr ds"
    by (cases "getAllAmountsFromTargets s")
       (auto simp: rebalance_def internal_rebalance_def andThen_eq_Inr)
  then have tb: "totalBalance s < 2 ^ 256" and range: "\<forall>a\<in>set ?xs. distance_in_range s a"
    and ds: "ds = map (distance s) ?xs"
    by (simp_all add: getAllAmountsFromTargets_Inr_iff)
  have zs: "zip ?xs ds = ?zs" by (simp add: ds zip_with_balances)
  from assms(1,4) obtain s1 where p1: "rebalance_withdraws s ?zs = Inr s1"
    and p2': "rebalance_deposits s1 (zip (pcvDepositAddresses s1) ds) = Inr s'"
    by (auto simp: rebalance_def internal_rebalance_eq [OF g] andThen_eq_Inr zs)
  have fst_zs: "map fst ?zs = ?xs" by (simp add: comp_def)
  have d: "distinct (map fst ?zs)" unfolding fst_zs by (rule assms(2))
  have t: "thisAddress s \<notin> fst ` set ?zs" using assms(3) by (auto simp: image_iff)
  note e1 = rebalance_withdraws_effect [OF p1 d t]
  from e1 have same1: "same_registry s s1" by blast
  then have t1: "thisAddress s1 = thisAddress s" and x1: "pcvDepositAddresses s1 = ?xs"
    by (simp_all add: same_registry_def)
  from p2' have p2: "rebalance_deposits s1 ?zs = Inr s'" by (simp add: x1 zs)
  from t t1 have t': "thisAddress s1 \<notin> fst ` set ?zs" by simp
  note e2 = rebalance_deposits_effect [OF p2 d t']
  from e2 have same2: "same_registry s1 s'" by blast
  from same1 same2 have same: "same_registry s s'" by (simp add: same_registry_def)
  have at: "\<forall>a\<in>set ?xs. tokenBalances s' a = idealBalance s a"
  proof
    fix a assume a: "a \<in> set ?xs"
    then have m: "(a, distance s a) \<in> set ?zs" by simp
    from e1 m have "tokenBalances s1 a = tokenBalances s a - nat (- distance s a)" by blast
    moreover from e2 m have "tokenBalances s' a = tokenBalances s1 a + nat (distance s a)" by blast
    ultimately show "tokenBalances s' a = idealBalance s a" by (simp add: distance_def)
  qed
  have b1: "tokenBalances s1 (thisAddress s) =
      tokenBalances s (thisAddress s) + (\<Sum>a\<leftarrow>?xs. nat (- distance s a))"
    using e1 by (simp add: comp_def)
  have le: "(\<Sum>a\<leftarrow>?xs. nat (distance s a)) \<le> tokenBalances s1 (thisAddress s)"
    using e2 by (simp add: comp_def t1)
  have b2: "tokenBalances s' (thisAddress s) =
      tokenBalances s1 (thisAddress s) - (\<Sum>a\<leftarrow>?xs. nat (distance s a))"
    using e2 by (simp add: comp_def t1)
  have sum': "sumOfDepositBalances s' = (\<Sum>a\<leftarrow>?xs. idealBalance s a)"
    using same at by (simp add: sumOfDepositBalances_def same_registry_def cong: map_cong)
  have "totalBalance s' =
      tokenBalances s1 (thisAddress s) - (\<Sum>a\<leftarrow>?xs. nat (distance s a))
        + (\<Sum>a\<leftarrow>?xs. idealBalance s a)"
    using same by (simp add: totalBalance_def balance_def sum' b2 same_registry_def)
  moreover have "totalBalance s = tokenBalances s (thisAddress s) + (\<Sum>a\<leftarrow>?xs. tokenBalances s a)"
    by (simp add: totalBalance_def balance_def sumOfDepositBalances_def)
  ultimately have "totalBalance s' = totalBalance s"
    using distance_sums [of s ?xs] b1 le by linarith
  with same tb range at show ?thesis by simp
qed

text \<open>
  Claim C5: when a rebalance of an unpaused aggregator (whose registry is a set that
  does not contain the aggregator itself) has succeeded, a second rebalance right
  after it succeeds as well, makes no call and leaves every balance, indeed the
  whole state, as the first one left it.
\<close>

theorem rebalance_twice_moves_nothing:
  assumes "\<not> paused s" "distinct (pcvDepositAddresses s)"
    and "thisAddress s \<notin> set (pcvDepositAddresses s)" "rebalance s = Inr s'"
  shows "\<exists>s''. rebalance s' = Inr s'' \<and> tokenBalances s'' = tokenBalances s' \<and>
               calls s'' = calls s' \<and> s'' = s'"
proof -
  note r = rebalance_reaches_targets [OF assms]
  from r have same: "same_registry s s'" and tb: "totalBalance s' = totalBalance s"
    and lt: "totalBalance s < 2 ^ 256" by blast+
  have p: "\<not> paused s'" using same assms(1) by (simp add: same_registry_def)
  have ideal: "\<And>a. idealBalance s' a = idealBalance s a"
    using same tb by (simp add: idealBalance_def same_registry_def)
  have "\<forall>a\<in>set (pcvDepositAddresses s'). distance_in_range s' a \<and> distance s' a = 0"
  proof
    fix a assume "a \<in> set (pcvDepositAddresses s')"
    with same have "a \<in> set (pcvDepositAddresses s)" by (simp add: same_registry_def)
    with r have "distance_in_range s a" "tokenBalances s' a = idealBalance s a" by blast+
    then show "distance_in_range s' a \<and> distance s' a = 0"
      using same tb by (simp add: distance_in_range_def distance_def ideal same_registry_def)
  qed
  with p lt tb have "rebalance s' = Inr s'" by (simp add: rebalance_balanced)
  then show ?thesis by simp
qed

theorem rebalance_twice_moves_nothing_witness:
  "rebalance (example_state 400 0 0 0) =
     Inr ((example_state 100 100 200 0)
            \<lparr>calls := [SubWithdraw 1 300, TokenTransfer 2 100, SubDeposit 2,
                       TokenTransfer 3 200, SubDeposit 3]\<rparr>) \<and>
   rebalance ((example_state 100 100 200 0)
            \<lparr>calls := [SubWithdraw 1 300, TokenTransfer 2 100, SubDeposit 2,
                       TokenTransfer 3 200, SubDeposit 3]\<rparr>) =
     Inr ((example_state 100 100 200 0)
            \<lparr>calls := [SubWithdraw 1 300, TokenTransfer 2 100, SubDeposit 2,
                       TokenTransfer 3 200, SubDeposit 3]\<rparr>)"
proof -
  let ?s = "example_state 400 0 0 0"
  let ?s' = "(example_state 100 100 200 0)
            \<lparr>calls := [SubWithdraw 1 300, TokenTransfer 2 100, SubDeposit 2,
                       TokenTransfer 3 200, SubDeposit 3]\<rparr>"
  have g: "getAllAmountsFromTargets ?s = Inr [- 300, 100, 200]"
    by (simp add: getAllAmountsFromTargets_Inr_iff example_simps)
  have r: "rebalance ?s = Inr ?s'"
    by (simp add: rebalance_def internal_rebalance_eq [OF g])
       (simp add: example_state_def int256_mul_def int256_def toUint256_def
          IPCVDeposit_withdraw_def safeTransfer_def IPCVDeposit_deposit_def moved_def fun_eq_iff)
  have p: "\<not> paused ?s" and d: "distinct (pcvDepositAddresses ?s)"
    and t: "thisAddress ?s \<notin> set (pcvDepositAddresses ?s)"
    by (simp_all add: example_state_def)
  from rebalance_twice_moves_nothing [OF p d t r] r show ?thesis by simp
qed

end
